theory Spec2Isabelle
  imports Main
begin

section \<open>The release script \<open>do_release.py\<close>\<close>

text \<open>
  A shallow embedding of \<^verbatim>\<open>do_release.py\<close>. Python strings are modelled as
  \<^typ>\<open>string\<close> (characters are the code points below 256), Python integers as
  \<^typ>\<open>int\<close>, exceptions as values of the datatype \<open>error\<close>. The working tree, the
  external commands that have been executed and the lines that have been printed are the
  fields of the record \<open>world\<close>; every operation returns the exception it raised (if any)
  together with the world it leaves behind.
\<close>

subsection \<open>Characters and strings\<close>

abbreviation (input) DQ :: char where "DQ \<equiv> CHR 0x22"
abbreviation (input) NL :: char where "NL \<equiv> CHR 0x0A"
abbreviation (input) BSL :: char where "BSL \<equiv> CHR 0x5C"

text \<open>\<^verbatim>\<open>needle in haystack\<close> on strings.\<close>

fun str_in :: "string \<Rightarrow> string \<Rightarrow> bool" where
  "str_in p [] = (p = [])"
| "str_in p (c # cs) = (take (length p) (c # cs) = p \<or> str_in p cs)"

text \<open>\<^verbatim>\<open>s.split(d)\<close> for a one-character separator: never the empty list.\<close>

fun split_on :: "char \<Rightarrow> string \<Rightarrow> string list" where
  "split_on d [] = [[]]"
| "split_on d (c # cs) =
     (if c = d then [] # split_on d cs
      else (case split_on d cs of [] \<Rightarrow> [[c]] | w # ws \<Rightarrow> (c # w) # ws))"

text \<open>\<^verbatim>\<open>d.join(parts)\<close>.\<close>

fun join_with :: "string \<Rightarrow> string list \<Rightarrow> string" where
  "join_with d [] = []"
| "join_with d [p] = p"
| "join_with d (p # q # ps) = p @ d @ join_with d (q # ps)"

subsection \<open>\<^verbatim>\<open>int(s)\<close> and \<^verbatim>\<open>str(i)\<close>\<close>

text \<open>
  \<^verbatim>\<open>int(s)\<close> in base ten: white space around the literal is dropped, one sign may
  precede the digits, and single underscores may stand between two digits. Anything else
  raises \<^verbatim>\<open>ValueError\<close> (here: \<open>None\<close>). The interpreter's limit on the number of
  digits of a literal is not modelled.
\<close>

definition is_space :: "char \<Rightarrow> bool" where
  "is_space c = (c \<in> set [CHR 0x09, CHR 0x0A, CHR 0x0B, CHR 0x0C, CHR 0x0D, CHR 0x1C,
                            CHR 0x1D, CHR 0x1E, CHR 0x1F, CHR 0x20, CHR 0x85, CHR 0xA0])"

definition is_digit :: "char \<Rightarrow> bool" where
  "is_digit c = (c \<in> set ''0123456789'')"

definition digit_val :: "char \<Rightarrow> int" where
  "digit_val c = int (of_char c) - 48"

definition strip :: "string \<Rightarrow> string" where
  "strip s = rev (dropWhile is_space (rev (dropWhile is_space s)))"

fun py_digits :: "bool \<Rightarrow> int \<Rightarrow> string \<Rightarrow> int option" where
  "py_digits prev acc [] = (if prev then Some acc else None)"
| "py_digits prev acc (c # cs) =
     (if is_digit c then py_digits True (acc * 10 + digit_val c) cs
      else if c = CHR ''_'' \<and> prev then py_digits False acc cs
      else None)"

definition py_int :: "string \<Rightarrow> int option" where
  "py_int s =
     (case strip s of
        [] \<Rightarrow> None
      | c # cs \<Rightarrow>
          if c = CHR ''+'' then py_digits False 0 cs
          else if c = CHR ''-'' then map_option uminus (py_digits False 0 cs)
          else py_digits False 0 (c # cs))"

definition digit_char :: "nat \<Rightarrow> char" where
  "digit_char n = ''0123456789'' ! (n mod 10)"

fun nat_digits :: "nat \<Rightarrow> string" where
  "nat_digits n = (if n < 10 then [digit_char n] else nat_digits (n div 10) @ [digit_char n])"

declare nat_digits.simps [simp del]

definition py_str :: "int \<Rightarrow> string" where
  "py_str i = (if i < 0 then CHR ''-'' # nat_digits (nat (- i)) else nat_digits (nat i))"

subsection \<open>Exceptions\<close>

datatype message =
    Inconsistent "string list"
  | NotAllowed string string

datatype error =
    VersionParsingError string
  | InvalidVersionError message
  | CalledProcessError "string list"
  | ValueError string
  | ReError string
  | FileNotFoundError string
  | IndexError

subsection \<open>Version numbers\<close>

text \<open>
  \<^verbatim>\<open>re.sub(r'-pre.*', '', version)\<close>: every occurrence of \<^verbatim>\<open>-pre\<close> is removed
  together with the rest of its line (the dot of the pattern does not match a line break).
\<close>

function strip_pre :: "string \<Rightarrow> string" where
  "strip_pre [] = []"
| "strip_pre (c # cs) =
     (if take 4 (c # cs) = ''-pre''
      then strip_pre (dropWhile (\<lambda>x. x \<noteq> NL) (drop 4 (c # cs)))
      else c # strip_pre cs)"
  by pat_completeness auto
termination
proof (relation "measure length")
  fix c :: char and cs :: string
  have "length (dropWhile (\<lambda>x. x \<noteq> NL) (drop 4 (c # cs))) \<le> length (drop 4 (c # cs))"
    by (rule length_dropWhile_le)
  then show "(dropWhile (\<lambda>x. x \<noteq> NL) (drop 4 (c # cs)), c # cs) \<in> measure length"
    by simp
qed simp_all

fun ints_of :: "string list \<Rightarrow> error + int list" where
  "ints_of [] = Inr []"
| "ints_of (p # ps) =
     (case py_int p of
        None \<Rightarrow> Inl (ValueError p)
      | Some i \<Rightarrow> (case ints_of ps of Inl e \<Rightarrow> Inl e | Inr is \<Rightarrow> Inr (i # is)))"

definition version_ints :: "string \<Rightarrow> error + int list" where
  "version_ints version = ints_of (split_on (CHR ''.'') (strip_pre version))"

text \<open>Python's comparison of two lists of integers.\<close>

fun list_lt :: "int list \<Rightarrow> int list \<Rightarrow> bool" where
  "list_lt [] [] = False"
| "list_lt [] (y # ys) = True"
| "list_lt (x # xs) [] = False"
| "list_lt (x # xs) (y # ys) = (if x = y then list_lt xs ys else x < y)"

fun list_le :: "int list \<Rightarrow> int list \<Rightarrow> bool" where
  "list_le [] ys = True"
| "list_le (x # xs) [] = False"
| "list_le (x # xs) (y # ys) = (if x = y then list_le xs ys else x \<le> y)"

subsection \<open>The pattern \<^verbatim>\<open>VERSION_RE\<close>\<close>

text \<open>
  \<^verbatim>\<open>VERSION_RE = re.compile(r'^version = "([^"]+)"', re.MULTILINE)\<close>.
  \<open>VERSION_RE_match s\<close> tries the pattern at a position where \<^verbatim>\<open>^\<close> holds, \<open>s\<close>
  being the text from there on: the result is group 1 and the text after the match. The
  class \<^verbatim>\<open>[^"]\<close> accepts every character but the double quote, line breaks included.
\<close>

definition version_prefix :: string where
  "version_prefix = ''version = '' @ [DQ]"

definition VERSION_RE_match :: "string \<Rightarrow> (string \<times> string) option" where
  "VERSION_RE_match s =
     (if take 11 s = version_prefix then
        (let g = takeWhile (\<lambda>x. x \<noteq> DQ) (drop 11 s);
             r = dropWhile (\<lambda>x. x \<noteq> DQ) (drop 11 s)
         in if g \<noteq> [] \<and> r \<noteq> [] then Some (g, tl r) else None)
      else None)"

text \<open>
  \<^verbatim>\<open>VERSION_RE.search(s)\<close>: group 1 of the leftmost match. The flag says whether the
  current position is the start of the text or follows a line break.
\<close>

fun VERSION_RE_search :: "bool \<Rightarrow> string \<Rightarrow> string option" where
  "VERSION_RE_search bol [] = None"
| "VERSION_RE_search bol (c # cs) =
     (case (if bol then VERSION_RE_match (c # cs) else None) of
        Some (g, r) \<Rightarrow> Some g
      | None \<Rightarrow> VERSION_RE_search (c = NL) cs)"

lemma VERSION_RE_match_shorter:
  assumes "VERSION_RE_match s = Some (g, r)"
  shows "length r < length s"
proof -
  let ?d = "drop 11 s"
  from assms have r: "r = tl (dropWhile (\<lambda>x. x \<noteq> DQ) ?d)"
    and ne: "dropWhile (\<lambda>x. x \<noteq> DQ) ?d \<noteq> []"
    by (auto simp: VERSION_RE_match_def Let_def split: if_splits)
  have "length (dropWhile (\<lambda>x. x \<noteq> DQ) ?d) \<le> length ?d"
    by (rule length_dropWhile_le)
  with ne r show ?thesis
    by (cases "dropWhile (\<lambda>x. x \<noteq> DQ) ?d") auto
qed

text \<open>
  \<^verbatim>\<open>VERSION_RE.sub(repl, s)\<close> with the replacement of a match given as a function of
  its group 1: the matches are found from left to right and do not overlap. The position
  after a match follows a double quote, so it is not the start of a line.
\<close>

function VERSION_RE_sub :: "(string \<Rightarrow> string) \<Rightarrow> bool \<Rightarrow> string \<Rightarrow> string" where
  "VERSION_RE_sub f bol [] = []"
| "VERSION_RE_sub f bol (c # cs) =
     (case (if bol then VERSION_RE_match (c # cs) else None) of
        Some (g, r) \<Rightarrow> f g @ VERSION_RE_sub f False r
      | None \<Rightarrow> c # VERSION_RE_sub f (c = NL) cs)"
  by pat_completeness auto
termination
  by (relation "measure (\<lambda>(f, bol, s). length s)")
     (auto split: if_splits dest: VERSION_RE_match_shorter)

text \<open>
  A replacement string without a backslash is taken literally. One with a backslash is
  a template that the \<^verbatim>\<open>re\<close> module parses before it searches: the parser is not part of
  the script and is a parameter here, \<open>None\<close> standing for the error it raises on a
  template it rejects, and the function it returns mapping group 1 of a match to the
  expansion of the template.
\<close>

type_synonym template_parser = "string \<Rightarrow> (string \<Rightarrow> string) option"

definition compile_repl :: "template_parser \<Rightarrow> string \<Rightarrow> (string \<Rightarrow> string) option" where
  "compile_repl tmpl repl = (if BSL \<in> set repl then tmpl repl else Some (\<lambda>g. repl))"

definition VERSION_RE_sub_repl :: "template_parser \<Rightarrow> string \<Rightarrow> string \<Rightarrow> error + string" where
  "VERSION_RE_sub_repl tmpl repl contents =
     (case compile_repl tmpl repl of
        None \<Rightarrow> Inl (ReError repl)
      | Some f \<Rightarrow> Inr (VERSION_RE_sub f True contents))"

subsection \<open>The working tree\<close>

text \<open>
  \<open>files\<close> lists the regular files below the current directory in the order in which
  \<^verbatim>\<open>os.walk('.')\<close> meets them, each as the directory \<^verbatim>\<open>root\<close> it is listed in, its
  name there, and its contents as text. \<open>executed\<close> is the list of the external
  commands run so far, \<open>printed\<close> what has been printed.
\<close>

datatype printout =
    WouldRun "string list"
  | WouldSet string string

record world =
  files :: "(string \<times> string \<times> string) list"
  executed :: "string list list"
  printed :: "printout list"

text \<open>\<^verbatim>\<open>os.path.join(root, name)\<close>.\<close>

definition path_join :: "string \<Rightarrow> string \<Rightarrow> string" where
  "path_join root name =
     (if take 1 name = ''/'' then name
      else if root = [] \<or> last root = CHR ''/'' then root @ name
      else root @ ''/'' @ name)"

definition paths :: "world \<Rightarrow> string list" where
  "paths w = map (\<lambda>(root, name, contents). path_join root name) (files w)"

definition build_filenames :: "world \<Rightarrow> string list" where
  "build_filenames w =
     map (\<lambda>(root, name, contents). path_join root name)
       (filter (\<lambda>(root, name, contents). name = ''build.gradle.kts'') (files w))"

text \<open>Reading and writing a file through its path (text mode).\<close>

definition read_file :: "world \<Rightarrow> string \<Rightarrow> string option" where
  "read_file w p = map_of (map (\<lambda>(root, name, contents). (path_join root name, contents)) (files w)) p"

text \<open>
  \<open>write_file\<close> replaces the contents of the file at an existing path. The script writes
  a file only after it has read the same path.
\<close>

definition write_file :: "string \<Rightarrow> string \<Rightarrow> world \<Rightarrow> world" where
  "write_file p contents' w =
     w\<lparr>files := map (\<lambda>(root, name, contents).
          if path_join root name = p then (root, name, contents') else (root, name, contents))
        (files w)\<rparr>"

text \<open>\<^verbatim>\<open>f.readlines()\<close>: the lines of a text, each with its line break.\<close>

fun readlines :: "string \<Rightarrow> string list" where
  "readlines [] = []"
| "readlines (c # cs) =
     (if c = NL then [c] # readlines cs
      else (case readlines cs of [] \<Rightarrow> [[c]] | l # ls \<Rightarrow> (c # l) # ls))"

fun first_match :: "string list \<Rightarrow> string option" where
  "first_match [] = None"
| "first_match (line # lines) =
     (case VERSION_RE_search True line of
        Some g \<Rightarrow> Some g
      | None \<Rightarrow> first_match lines)"

definition get_version_from_build :: "world \<Rightarrow> string \<Rightarrow> error + string" where
  "get_version_from_build w build_filename =
     (case read_file w build_filename of
        None \<Rightarrow> Inl (FileNotFoundError build_filename)
      | Some contents \<Rightarrow>
          (case first_match (readlines contents) of
             None \<Rightarrow> Inl (VersionParsingError build_filename)
           | Some v \<Rightarrow> Inr v))"

subsection \<open>Results and external commands\<close>

text \<open>
  An operation returns the exception that ended it (\<open>None\<close> when it returned normally) and
  the world at that moment. \<open>and_then\<close> is the sequencing of two statements: the second
  one runs only if the first one raised nothing.
\<close>

type_synonym result = "error option \<times> world"

definition and_then :: "result \<Rightarrow> (world \<Rightarrow> result) \<Rightarrow> result" where
  "and_then r f = (case r of (None, w) \<Rightarrow> f w | (Some e, w) \<Rightarrow> (Some e, w))"

text \<open>
  The external programs (\<^verbatim>\<open>git\<close>, \<^verbatim>\<open>./gradlew\<close>) are not part of the script: \<open>sh w command\<close>
  says whether \<^verbatim>\<open>command\<close>, run in world \<open>w\<close>, exits with status zero. The commands of the
  script act on the repository and the remote, which are not modelled beyond the list of
  executed commands; they leave the files of the working tree as they are.
\<close>

type_synonym shell = "world \<Rightarrow> string list \<Rightarrow> bool"

definition run_command :: "shell \<Rightarrow> string list \<Rightarrow> bool \<Rightarrow> world \<Rightarrow> result" where
  "run_command sh command dry_run w =
     (if dry_run then (None, w\<lparr>printed := printed w @ [WouldRun command]\<rparr>)
      else (if sh w command then None else Some (CalledProcessError command),
            w\<lparr>executed := executed w @ [command]\<rparr>))"

subsection \<open>\<^verbatim>\<open>set_version\<close>\<close>

fun collect_versions :: "world \<Rightarrow> string list \<Rightarrow> error + string list" where
  "collect_versions w [] = Inr []"
| "collect_versions w (build_filename # rest) =
     (case get_version_from_build w build_filename of
        Inl e \<Rightarrow> Inl e
      | Inr v \<Rightarrow> (case collect_versions w rest of Inl e \<Rightarrow> Inl e | Inr vs \<Rightarrow> Inr (v # vs)))"

text \<open>The test \<^verbatim>\<open>version_ok\<close> of \<^verbatim>\<open>set_version\<close>; either call of \<^verbatim>\<open>version_ints\<close> may raise.\<close>

definition compare_ints ::
  "(int list \<Rightarrow> int list \<Rightarrow> bool) \<Rightarrow> string \<Rightarrow> string \<Rightarrow> error + bool" where
  "compare_ints cmp old_version version =
     (case version_ints old_version of
        Inl e \<Rightarrow> Inl e
      | Inr a \<Rightarrow> (case version_ints version of Inl e \<Rightarrow> Inl e | Inr b \<Rightarrow> Inr (cmp a b)))"

definition version_ok :: "string \<Rightarrow> string \<Rightarrow> error + bool" where
  "version_ok old_version version =
     (if str_in ''-pre'' old_version then compare_ints list_le old_version version
      else compare_ints list_lt old_version version)"

definition version_line :: "string \<Rightarrow> string" where
  "version_line version = version_prefix @ version @ [DQ]"

text \<open>The second loop of \<^verbatim>\<open>set_version\<close>: read, substitute, then write or print.\<close>

fun write_versions :: "template_parser \<Rightarrow> string \<Rightarrow> bool \<Rightarrow> string list \<Rightarrow> world \<Rightarrow> result" where
  "write_versions tmpl version dry_run [] w = (None, w)"
| "write_versions tmpl version dry_run (build_filename # rest) w =
     (case read_file w build_filename of
        None \<Rightarrow> (Some (FileNotFoundError build_filename), w)
      | Some contents \<Rightarrow>
          (case VERSION_RE_sub_repl tmpl (version_line version) contents of
             Inl e \<Rightarrow> (Some e, w)
           | Inr contents' \<Rightarrow>
               write_versions tmpl version dry_run rest
                 (if dry_run then w\<lparr>printed := printed w @ [WouldSet build_filename contents']\<rparr>
                  else write_file build_filename contents' w)))"

definition set_version :: "template_parser \<Rightarrow> string \<Rightarrow> bool \<Rightarrow> world \<Rightarrow> result" where
  "set_version tmpl version dry_run w =
     (case collect_versions w (build_filenames w) of
        Inl e \<Rightarrow> (Some e, w)
      | Inr versions \<Rightarrow>
          if card (set versions) \<noteq> 1
          then (Some (InvalidVersionError (Inconsistent versions)), w)
          else (case versions of
                  [] \<Rightarrow> (Some IndexError, w)
                | old_version # _ \<Rightarrow>
                    (case version_ok old_version version of
                       Inl e \<Rightarrow> (Some e, w)
                     | Inr ok \<Rightarrow>
                         if \<not> ok
                         then (Some (InvalidVersionError (NotAllowed old_version version)), w)
                         else write_versions tmpl version dry_run (build_filenames w) w)))"

subsection \<open>Committing, tagging, pushing, publishing\<close>

definition VERSION_BUMP_COMMIT_TEMPLATE :: "string \<Rightarrow> string \<Rightarrow> string" where
  "VERSION_BUMP_COMMIT_TEMPLATE version auditors =
     ''Auto-bump version to '' @ version @ [NL, NL] @
     ''Test plan:'' @ [NL] @
     ''- fingers crossed'' @ [NL, NL] @
     ''Auditors: '' @ auditors @ [NL]"

fun add_files :: "shell \<Rightarrow> bool \<Rightarrow> string list \<Rightarrow> world \<Rightarrow> result" where
  "add_files sh dry_run [] w = (None, w)"
| "add_files sh dry_run (build_filename # rest) w =
     and_then (run_command sh [''git'', ''add'', build_filename] dry_run w)
       (add_files sh dry_run rest)"

definition commit_version_bump :: "shell \<Rightarrow> string \<Rightarrow> string \<Rightarrow> bool \<Rightarrow> world \<Rightarrow> result" where
  "commit_version_bump sh version auditors dry_run w =
     and_then (add_files sh dry_run (build_filenames w) w)
       (run_command sh
          [''git'', ''commit'', ''-m'', VERSION_BUMP_COMMIT_TEMPLATE version auditors] dry_run)"

definition make_tag :: "shell \<Rightarrow> string \<Rightarrow> bool \<Rightarrow> world \<Rightarrow> result" where
  "make_tag sh version dry_run w = run_command sh [''git'', ''tag'', ''v'' @ version] dry_run w"

definition git_push :: "shell \<Rightarrow> bool \<Rightarrow> world \<Rightarrow> result" where
  "git_push sh dry_run w =
     and_then (run_command sh [''git'', ''push''] dry_run w)
       (run_command sh [''git'', ''push'', ''--tags''] dry_run)"

definition do_publish :: "shell \<Rightarrow> bool \<Rightarrow> world \<Rightarrow> result" where
  "do_publish sh dry_run w = run_command sh [''./gradlew'', ''publish''] dry_run w"

subsection \<open>\<^verbatim>\<open>do_release\<close>\<close>

text \<open>\<^verbatim>\<open>version_i[-1] += 1\<close>: raises \<^verbatim>\<open>IndexError\<close> on the empty list.\<close>

fun incr_last :: "int list \<Rightarrow> int list option" where
  "incr_last [] = None"
| "incr_last [x] = Some [x + 1]"
| "incr_last (x # y # ys) = map_option ((#) x) (incr_last (y # ys))"

definition next_version :: "string \<Rightarrow> error + string" where
  "next_version version =
     (case version_ints version of
        Inl e \<Rightarrow> Inl e
      | Inr version_i \<Rightarrow>
          (case incr_last version_i of
             None \<Rightarrow> Inl IndexError
           | Some version_i' \<Rightarrow> Inr (join_with ''.'' (map py_str version_i') @ ''-pre1'')))"

definition do_release ::
  "shell \<Rightarrow> template_parser \<Rightarrow> string \<Rightarrow> string \<Rightarrow> bool \<Rightarrow> world \<Rightarrow> result" where
  "do_release sh tmpl version auditors dry_run w =
     and_then (set_version tmpl version dry_run w) (\<lambda>w.
     and_then (commit_version_bump sh version auditors dry_run w) (\<lambda>w.
     and_then (make_tag sh version dry_run w) (\<lambda>w.
     and_then (git_push sh dry_run w) (\<lambda>w.
     and_then (do_publish sh dry_run w) (\<lambda>w.
       (case next_version version of
          Inl e \<Rightarrow> (Some e, w)
        | Inr next \<Rightarrow>
            and_then (set_version tmpl next dry_run w) (\<lambda>w.
            and_then (commit_version_bump sh next auditors dry_run w)
              (git_push sh dry_run))))))))"

subsection \<open>Vocabulary of the properties\<close>

text \<open>
  The increase policy in the words of the specification: the numeric tuple of the old
  version is at most (with a pre-release suffix on the old version) or strictly below
  (without one) the numeric tuple of the new version, in the lexicographic order.
\<close>

definition increase_permitted :: "string \<Rightarrow> int list \<Rightarrow> int list \<Rightarrow> bool" where
  "increase_permitted old a b =
     ((str_in ''-pre'' old \<and> (a = b \<or> (a, b) \<in> lexord {(x, y). x < y}))
      \<or> (\<not> str_in ''-pre'' old \<and> (a, b) \<in> lexord {(x, y). x < y}))"

text \<open>The world after an operation is the world before it with more lines printed.\<close>

definition only_prints :: "world \<Rightarrow> result \<Rightarrow> bool" where
  "only_prints w r = (\<exists>lines. snd r = w\<lparr>printed := printed w @ lines\<rparr>)"



subsection \<open>Example worlds\<close>

text \<open>
  A working tree with two build files, declaring the versions \<open>v\<close> and \<open>v'\<close>, and a file
  that is not a build file; a working tree without build files; a template parser that
  rejects every template; external commands that all succeed.
\<close>

definition gradle_file :: "string \<Rightarrow> string" where
  "gradle_file v =
     ''plugins { }'' @ [NL] @ version_line v @ [NL] @
     ''group = '' @ [DQ] @ ''org.khanacademy'' @ [DQ, NL]"

definition tree_at :: "string \<Rightarrow> string \<Rightarrow> world" where
  "tree_at v v' =
     \<lparr>files = [(''.'', ''build.gradle.kts'', gradle_file v),
               (''.'', ''README.md'', ''docs''),
               (''./core'', ''build.gradle.kts'', gradle_file v')],
      executed = [], printed = []\<rparr>"

definition tree_without_build_files :: world where
  "tree_without_build_files =
     \<lparr>files = [(''.'', ''README.md'', ''docs'')], executed = [], printed = []\<rparr>"

definition no_templates :: template_parser where
  "no_templates repl = None"

definition all_succeed :: shell where
  "all_succeed w command = True"

subsection \<open>Vocabulary of the lemmas\<close>

text \<open>
  The characters of a version that \<^verbatim>\<open>do_release\<close> computes; the directories and names of
  the files of a world, without their contents; the command that commits a version bump.
\<close>

definition ver_char :: "char \<Rightarrow> bool" where
  "ver_char c = (is_digit c \<or> c = CHR ''-'' \<or> c = CHR ''.'' \<or> c = CHR ''p'' \<or> c = CHR ''r'' \<or> c = CHR ''e'')"

definition layout :: "world \<Rightarrow> (string \<times> string) list" where
  "layout w = map (\<lambda>(root, name, contents). (root, name)) (files w)"

definition commit_command :: "string \<Rightarrow> string \<Rightarrow> string list" where
  "commit_command version auditors =
     [''git'', ''commit'', ''-m'', VERSION_BUMP_COMMIT_TEMPLATE version auditors]"

text \<open>
  The commands of the steps 2 to 5 and of the steps 8 and 9 of a release; the first line
  of a text (with its line break) and the text after it; a text with at most one line break,
  at its end; a version that is not empty and has no double quote and no line break.
\<close>

definition release_commands :: "string \<Rightarrow> string \<Rightarrow> string list \<Rightarrow> string list list" where
  "release_commands version auditors build_files =
     map (\<lambda>p. [''git'', ''add'', p]) build_files @
     [commit_command version auditors, [''git'', ''tag'', ''v'' @ version],
      [''git'', ''push''], [''git'', ''push'', ''--tags''], [''./gradlew'', ''publish'']]"

definition bump_commands :: "string \<Rightarrow> string \<Rightarrow> string list \<Rightarrow> string list list" where
  "bump_commands next auditors build_files =
     map (\<lambda>p. [''git'', ''add'', p]) build_files @
     [commit_command next auditors, [''git'', ''push''], [''git'', ''push'', ''--tags'']]"

definition first_line :: "string \<Rightarrow> string" where
  "first_line c = takeWhile (\<lambda>x. x \<noteq> NL) c @ take 1 (dropWhile (\<lambda>x. x \<noteq> NL) c)"

definition after_line :: "string \<Rightarrow> string" where
  "after_line c = drop 1 (dropWhile (\<lambda>x. x \<noteq> NL) c)"

definition is_line :: "string \<Rightarrow> bool" where
  "is_line l = (NL \<notin> set (butlast l))"

definition clean :: "string \<Rightarrow> bool" where
  "clean x = (x \<noteq> [] \<and> DQ \<notin> set x \<and> NL \<notin> set x)"




section \<open>Lemmas\<close>

subsection \<open>Comparison of lists and the pre-release suffix\<close>

lemma list_lt_lexord: "list_lt a b = ((a, b) \<in> lexord {(x, y). x < y})"
  by (induction a b rule: list_lt.induct) auto

lemma list_le_lt: "list_le a b = (a = b \<or> list_lt a b)"
  by (induction a b rule: list_lt.induct) auto

lemma list_lt_irrefl: "\<not> list_lt a a"
  by (induction a) auto

lemma str_in_prefix: "str_in p (p @ s)"
proof (cases p)
  case Nil
  then show ?thesis by (cases s) auto
next
  case (Cons c cs)
  then show ?thesis by simp
qed

lemma str_in_append: "str_in p (v @ p @ s)"
  by (induction v) (auto simp: str_in_prefix)

lemma take4_pre_append:
  assumes "take 4 (c # cs) \<noteq> ''-pre''"
  shows "take 4 ((c # cs) @ ''-pre'' @ s) \<noteq> ''-pre''"
proof (cases cs)
  case Nil
  then show ?thesis by simp
next
  case (Cons x xs)
  note c1 = this
  show ?thesis
  proof (cases xs)
    case Nil
    with c1 show ?thesis by auto
  next
    case (Cons y ys)
    note c2 = this
    show ?thesis
    proof (cases ys)
      case Nil
      with c1 c2 show ?thesis by auto
    next
      case (Cons z zs)
      with c1 c2 assms show ?thesis by simp
    qed
  qed
qed

lemma dropWhile_absent: "x \<notin> set s \<Longrightarrow> dropWhile (\<lambda>y. y \<noteq> x) s = []"
  by (induction s) auto

lemma strip_pre_suffix:
  "NL \<notin> set s \<Longrightarrow> strip_pre (v @ ''-pre'' @ s) = strip_pre v"
proof (induction v rule: strip_pre.induct)
  case 1
  then show ?case by (simp add: dropWhile_absent)
next
  case (2 c cs)
  show ?case
  proof (cases "take 4 (c # cs) = ''-pre''")
    case True
    then have "length (take 4 (c # cs)) = 4" by simp
    then have len: "4 \<le> length (c # cs)" by simp
    let ?d = "drop 4 (c # cs)"
    let ?t = "''-pre'' @ s"
    have nl: "NL \<notin> set ?t" using 2 by simp
    have l: "strip_pre ((c # cs) @ ?t) = strip_pre (dropWhile (\<lambda>x. x \<noteq> NL) (?d @ ?t))"
      using True len by simp
    have r: "strip_pre (c # cs) = strip_pre (dropWhile (\<lambda>x. x \<noteq> NL) ?d)"
      using True by simp
    show ?thesis
    proof (cases "NL \<in> set ?d")
      case T: True
      then have "dropWhile (\<lambda>x. x \<noteq> NL) (?d @ ?t) = dropWhile (\<lambda>x. x \<noteq> NL) ?d @ ?t"
        by (auto simp: dropWhile_append)
      with l have "strip_pre ((c # cs) @ ?t) = strip_pre (dropWhile (\<lambda>x. x \<noteq> NL) ?d @ ?t)"
        by (simp only:)
      also have "\<dots> = strip_pre (dropWhile (\<lambda>x. x \<noteq> NL) ?d)"
        by (rule 2(1)[OF True 2(3)])
      finally show ?thesis using r by (simp only:)
    next
      case F: False
      then have a: "dropWhile (\<lambda>x. x \<noteq> NL) ?d = []"
        by (rule dropWhile_absent)
      from F nl have "NL \<notin> set (?d @ ?t)" by simp
      then have b: "dropWhile (\<lambda>x. x \<noteq> NL) (?d @ ?t) = []"
        by (rule dropWhile_absent)
      have "strip_pre ((c # cs) @ ?t) = []" unfolding l b by simp
      moreover have "strip_pre (c # cs) = []" unfolding r a by simp
      ultimately show ?thesis by (simp only:)
    qed
  next
    case False
    from take4_pre_append[OF False, of s]
    have a: "strip_pre ((c # cs) @ ''-pre'' @ s) = c # strip_pre (cs @ ''-pre'' @ s)"
      by auto
    from False have b: "strip_pre (c # cs) = c # strip_pre cs"
      by auto
    show ?thesis unfolding a b using 2(2)[OF False 2(3)] by (simp only:)
  qed
qed

lemma version_ints_suffix:
  "NL \<notin> set s \<Longrightarrow> version_ints (v @ ''-pre'' @ s) = version_ints v"
  using strip_pre_suffix[of s v] by (simp add: version_ints_def)

lemma ints_of_Inr_iff: "(ints_of ps = Inr t) = (map py_int ps = map Some t)"
proof (induction ps arbitrary: t)
  case Nil
  show ?case by auto
next
  case (Cons a ps)
  show ?case
  proof (cases "py_int a")
    case None
    then show ?thesis by (cases t) auto
  next
    case (Some i)
    show ?thesis
    proof (cases "ints_of ps")
      case (Inl e)
      with Cons.IH have "\<And>t'. map py_int ps \<noteq> map Some t'" by simp
      with Some Inl show ?thesis by (cases t) auto
    next
      case (Inr t0)
      with Cons.IH[of t0] have m: "map py_int ps = map Some t0" by simp
      have inj: "\<And>t'. (map Some t0 = map Some t') = (t0 = t')"
        by (auto simp: inj_map_eq_map)
      from Some Inr m inj show ?thesis by (cases t) auto
    qed
  qed
qed

lemma strip_pre_dropWhile_head:
  "strip_pre (dropWhile (\<lambda>x. x \<noteq> NL) xs) = [] \<or> hd (strip_pre (dropWhile (\<lambda>x. x \<noteq> NL) xs)) = NL"
proof (cases "dropWhile (\<lambda>x. x \<noteq> NL) xs")
  case Nil
  then show ?thesis by (simp only: strip_pre.simps simp_thms)
next
  case (Cons y ys)
  then have "y = NL" using hd_dropWhile[of "\<lambda>x. x \<noteq> NL" xs] by auto
  with Cons show ?thesis by simp
qed

lemma strip_pre_take:
  "NL \<notin> set q \<Longrightarrow> CHR ''-'' \<notin> set q \<Longrightarrow> take (length q) (strip_pre cs) = q
     \<Longrightarrow> take (length q) cs = q"
proof (induction cs arbitrary: q rule: strip_pre.induct)
  case 1
  then show ?case by simp
next
  case (2 c cs)
  show ?case
  proof (cases q)
    case Nil
    then show ?thesis by simp
  next
    case (Cons x q')
    show ?thesis
    proof (cases "take 4 (c # cs) = ''-pre''")
      case True
      let ?r = "strip_pre (dropWhile (\<lambda>x. x \<noteq> NL) (drop 4 (c # cs)))"
      from True have r: "strip_pre (c # cs) = ?r" by simp
      from 2(5) Cons r have t: "take (Suc (length q')) ?r = x # q'" by (simp only: length_Cons)
      then have "?r \<noteq> []" by auto
      with strip_pre_dropWhile_head[of "drop 4 (c # cs)"] have "hd ?r = NL" by blast
      with t \<open>?r \<noteq> []\<close> have "x = NL" by (cases ?r) auto
      with 2(3) Cons show ?thesis by simp
    next
      case False
      then have r: "strip_pre (c # cs) = c # strip_pre cs" by auto
      from 2(5) Cons r have "c = x" and t: "take (length q') (strip_pre cs) = q'"
        by (simp_all only: length_Cons take_Suc_Cons list.inject)
      from 2(3,4) Cons have "NL \<notin> set q'" "CHR ''-'' \<notin> set q'" by auto
      from 2(2)[OF False this t] \<open>c = x\<close> Cons show ?thesis by simp
    qed
  qed
qed

lemma str_in_pre_Cons:
  "str_in ''-pre'' (c # xs) = (take 4 (c # xs) = ''-pre'' \<or> str_in ''-pre'' xs)"
proof -
  have "length ''-pre'' = 4" by simp
  then show ?thesis by (simp only: str_in.simps)
qed

lemma strip_pre_no_pre: "\<not> str_in ''-pre'' (strip_pre v)"
proof (induction v rule: strip_pre.induct)
  case 1
  show ?case by simp
next
  case (2 c cs)
  show ?case
  proof (cases "take 4 (c # cs) = ''-pre''")
    case True
    with 2(1) show ?thesis by simp
  next
    case False
    then have r: "strip_pre (c # cs) = c # strip_pre cs" by auto
    have "take 4 (c # strip_pre cs) \<noteq> ''-pre''"
    proof
      assume a: "take 4 (c # strip_pre cs) = ''-pre''"
      then have c: "c = CHR ''-''" and "take 3 (strip_pre cs) = ''pre''" by auto
      with strip_pre_take[of "''pre''" cs] have "take 3 cs = ''pre''"
        by (simp add: numeral_3_eq_3)
      with c False show False by simp
    qed
    with 2(2)[OF False] show ?thesis unfolding r str_in_pre_Cons by blast
  qed
qed

subsection \<open>Files and the two loops of \<^verbatim>\<open>set_version\<close>\<close>

lemma build_filenames_subset: "set (build_filenames w) \<subseteq> set (paths w)"
  by (force simp: build_filenames_def paths_def image_iff)

lemma read_file_paths: "(read_file w p = None) = (p \<notin> set (paths w))"
  by (force simp: read_file_def paths_def map_of_eq_None_iff image_iff)

lemma paths_write_file [simp]: "paths (write_file p c w) = paths w"
  by (auto simp: paths_def write_file_def split: prod.splits)

lemma paths_printed [simp]: "paths (w\<lparr>printed := x\<rparr>) = paths w"
  by (simp add: paths_def)

lemma write_versions_error:
  "set ps \<subseteq> set (paths w) \<Longrightarrow> fst (write_versions tmpl v dry ps w) = Some e \<Longrightarrow>
     e = ReError (version_line v) \<and> compile_repl tmpl (version_line v) = None"
proof (induction ps arbitrary: w)
  case Nil
  then show ?case by simp
next
  case (Cons p ps)
  from Cons.prems(1) obtain c where c: "read_file w p = Some c"
    using read_file_paths[of w p] by auto
  show ?case
  proof (cases "compile_repl tmpl (version_line v)")
    case None
    with c Cons.prems(2) show ?thesis by (simp add: VERSION_RE_sub_repl_def)
  next
    case (Some f)
    let ?w = "if dry then w\<lparr>printed := printed w @ [WouldSet p (VERSION_RE_sub f True c)]\<rparr>
              else write_file p (VERSION_RE_sub f True c) w"
    have sub: "set ps \<subseteq> set (paths ?w)" using Cons.prems(1) by simp
    from c Some Cons.prems(2) have "fst (write_versions tmpl v dry ps ?w) = Some e"
      by (simp add: VERSION_RE_sub_repl_def)
    from Cons.IH[OF sub this] show ?thesis .
  qed
qed

lemma write_versions_ok:
  "set ps \<subseteq> set (paths w) \<Longrightarrow> compile_repl tmpl (version_line v) = Some f \<Longrightarrow>
     fst (write_versions tmpl v dry ps w) = None"
  using write_versions_error[of ps w tmpl v dry]
  by (cases "fst (write_versions tmpl v dry ps w)") auto

lemma compile_repl_literal:
  "BSL \<notin> set version \<Longrightarrow> compile_repl tmpl (version_line version) = Some (\<lambda>g. version_line version)"
  by (simp add: compile_repl_def version_line_def version_prefix_def)

lemma consistent_versions:
  assumes "set vs = {old}"
  shows "card (set vs) = 1" and "\<exists>vs'. vs = old # vs'"
proof -
  show "card (set vs) = 1" using assms by simp
  from assms have "vs \<noteq> []" by auto
  then obtain x xs where "vs = x # xs" by (cases vs) auto
  with assms show "\<exists>vs'. vs = old # vs'" by auto
qed

lemma set_version_consistent:
  assumes "collect_versions w (build_filenames w) = Inr vs" and "set vs = {old}"
  shows "set_version tmpl new dry w =
     (case version_ok old new of
        Inl e \<Rightarrow> (Some e, w)
      | Inr ok \<Rightarrow> if \<not> ok then (Some (InvalidVersionError (NotAllowed old new)), w)
                 else write_versions tmpl new dry (build_filenames w) w)"
proof -
  from consistent_versions[OF assms(2)] obtain vs' where "card (set vs) = 1" "vs = old # vs'"
    by blast
  with assms(1) show ?thesis by (simp add: set_version_def)
qed

lemma version_ok_parsed:
  assumes "version_ints old = Inr a" and "version_ints new = Inr b"
  shows "version_ok old new = Inr (if str_in ''-pre'' old then list_le a b else list_lt a b)"
  using assms by (simp add: version_ok_def compare_ints_def)

lemma version_ok_permitted:
  assumes "version_ints old = Inr a" and "version_ints new = Inr b"
  shows "version_ok old new = Inr (increase_permitted old a b)"
  using assms
  by (simp add: version_ok_def compare_ints_def increase_permitted_def list_le_lt list_lt_lexord)

lemma set_version_policy:
  assumes "collect_versions w (build_filenames w) = Inr vs" and "set vs = {old}"
    and "version_ints old = Inr a" and "version_ints new = Inr b"
  shows "set_version tmpl new dry w =
      (if increase_permitted old a b then write_versions tmpl new dry (build_filenames w) w
       else (Some (InvalidVersionError (NotAllowed old new)), w))"
  using set_version_consistent[OF assms(1,2)] version_ok_permitted[OF assms(3,4)] by simp

lemma write_versions_not_policy:
  "fst (write_versions tmpl new dry (build_filenames w) w) \<noteq> Some (InvalidVersionError m)"
  using write_versions_error[where ps="build_filenames w" and w=w and tmpl=tmpl and v=new
        and dry=dry, OF build_filenames_subset] by auto

lemma write_versions_literal_ok:
  "BSL \<notin> set new \<Longrightarrow> fst (write_versions tmpl new dry (build_filenames w) w) = None"
  using write_versions_ok[OF build_filenames_subset compile_repl_literal] by simp

lemma run_command_dry_shell: "run_command sh c True = run_command sh' c True"
  by (rule ext) (simp add: run_command_def)

lemma add_files_dry_shell: "add_files sh True ps = add_files sh' True ps"
proof (induction ps)
  case Nil
  show ?case by (rule ext) simp
next
  case (Cons p ps)
  show ?case
    by (rule ext) (simp add: Cons.IH run_command_dry_shell[of sh _ sh'])
qed

lemma commit_version_bump_dry_shell:
  "commit_version_bump sh v a True = commit_version_bump sh' v a True"
  by (rule ext)
    (simp add: commit_version_bump_def add_files_dry_shell[of sh _ sh']
      run_command_dry_shell[of sh _ sh'])

lemma git_push_dry_shell: "git_push sh True = git_push sh' True"
  by (rule ext) (simp add: git_push_def run_command_dry_shell[of sh _ sh'])

lemma do_release_dry_shell:
  "do_release sh tmpl v a True w = do_release sh' tmpl v a True w"
  by (simp add: do_release_def make_tag_def do_publish_def
      commit_version_bump_dry_shell[of sh _ _ sh'] git_push_dry_shell[of sh sh']
      run_command_dry_shell[of sh _ sh'] cong: sum.case_cong)

subsection \<open>Dry runs\<close>

lemma only_prints_refl: "only_prints w (e, w)"
  by (auto simp: only_prints_def intro: exI[of _ "[]"])

lemma only_prints_step: "only_prints w (e, w\<lparr>printed := printed w @ lines\<rparr>)"
  by (auto simp: only_prints_def)

lemma only_prints_and_then:
  assumes "only_prints w r" and "\<And>w'. only_prints w (None, w') \<Longrightarrow> only_prints w (f w')"
  shows "only_prints w (and_then r f)"
proof (cases r)
  case (Pair e w')
  show ?thesis
  proof (cases e)
    case None
    with Pair assms show ?thesis by (simp add: and_then_def only_prints_def)
  next
    case (Some x)
    with Pair assms(1) show ?thesis by (simp add: and_then_def only_prints_def)
  qed
qed

lemma only_prints_trans:
  assumes "only_prints w (e, w')" and "only_prints w' r"
  shows "only_prints w r"
proof -
  from assms(1) obtain l1 where 1: "w' = w\<lparr>printed := printed w @ l1\<rparr>"
    by (auto simp: only_prints_def)
  from assms(2) obtain l2 where 2: "snd r = w'\<lparr>printed := printed w' @ l2\<rparr>"
    by (auto simp: only_prints_def)
  from 1 2 have "snd r = w\<lparr>printed := printed w @ (l1 @ l2)\<rparr>" by simp
  then show ?thesis unfolding only_prints_def by blast
qed

lemma run_command_dry: "only_prints w (run_command sh command True w)"
  by (simp add: run_command_def only_prints_step)

lemma read_file_printed [simp]: "read_file (w\<lparr>printed := x\<rparr>) p = read_file w p"
  by (simp add: read_file_def)

lemma build_filenames_printed [simp]: "build_filenames (w\<lparr>printed := x\<rparr>) = build_filenames w"
  by (simp add: build_filenames_def)

lemma write_versions_dry: "only_prints w (write_versions tmpl v True ps w)"
proof (induction ps arbitrary: w)
  case Nil
  show ?case by (simp add: only_prints_refl)
next
  case (Cons p ps)
  show ?case
  proof (cases "read_file w p")
    case None
    then show ?thesis by (simp add: only_prints_refl)
  next
    case (Some c)
    show ?thesis
    proof (cases "VERSION_RE_sub_repl tmpl (version_line v) c")
      case (Inl e)
      with Some show ?thesis by (simp add: only_prints_refl)
    next
      case (Inr c')
      let ?w = "w\<lparr>printed := printed w @ [WouldSet p c']\<rparr>"
      have "only_prints w (None, ?w)" by (rule only_prints_step)
      from only_prints_trans[OF this Cons.IH[of ?w]] Some Inr show ?thesis by simp
    qed
  qed
qed

lemma set_version_dry: "only_prints w (set_version tmpl v True w)"
  by (auto simp: set_version_def only_prints_refl write_versions_dry
      split: sum.splits list.splits)

lemma add_files_dry: "only_prints w (add_files sh True ps w)"
proof (induction ps arbitrary: w)
  case Nil
  show ?case by (simp add: only_prints_refl)
next
  case (Cons p ps)
  show ?case
    unfolding add_files.simps
    by (rule only_prints_and_then[OF run_command_dry])
       (erule only_prints_trans, rule Cons.IH)
qed

lemma commit_version_bump_dry: "only_prints w (commit_version_bump sh v a True w)"
  unfolding commit_version_bump_def
  by (rule only_prints_and_then[OF add_files_dry])
     (erule only_prints_trans, rule run_command_dry)

lemma make_tag_dry: "only_prints w (make_tag sh v True w)"
  by (simp add: make_tag_def run_command_dry)

lemma git_push_dry: "only_prints w (git_push sh True w)"
  unfolding git_push_def
  by (rule only_prints_and_then[OF run_command_dry])
     (erule only_prints_trans, rule run_command_dry)

lemma do_publish_dry: "only_prints w (do_publish sh True w)"
  by (simp add: do_publish_def run_command_dry)

lemma do_release_dry: "only_prints w (do_release sh tmpl v a True w)"
  unfolding do_release_def
proof (intro only_prints_and_then set_version_dry)
  fix w1 assume 1: "only_prints w (None, w1)"
  show "only_prints w (commit_version_bump sh v a True w1)"
    by (rule only_prints_trans[OF 1 commit_version_bump_dry])
next
  fix w1 w2 assume 2: "only_prints w (None, w2)"
  show "only_prints w (make_tag sh v True w2)"
    by (rule only_prints_trans[OF 2 make_tag_dry])
next
  fix w1 w2 w3 assume 3: "only_prints w (None, w3)"
  show "only_prints w (git_push sh True w3)"
    by (rule only_prints_trans[OF 3 git_push_dry])
next
  fix w1 w2 w3 w4 assume 4: "only_prints w (None, w4)"
  show "only_prints w (do_publish sh True w4)"
    by (rule only_prints_trans[OF 4 do_publish_dry])
next
  fix w1 w2 w3 w4 w5 assume 5: "only_prints w (None, w5)"
  show "only_prints w (case next_version v of Inl e \<Rightarrow> (Some e, w5)
        | Inr next \<Rightarrow>
            and_then (set_version tmpl next True w5) (\<lambda>w.
            and_then (commit_version_bump sh next a True w) (git_push sh True)))"
  proof (cases "next_version v")
    case (Inl e)
    with 5 show ?thesis by (simp add: only_prints_def)
  next
    case (Inr nv)
    have "only_prints w5 (and_then (set_version tmpl nv True w5) (\<lambda>w.
            and_then (commit_version_bump sh nv a True w) (git_push sh True)))"
    proof (intro only_prints_and_then set_version_dry)
      fix w6 assume 6: "only_prints w5 (None, w6)"
      show "only_prints w5 (commit_version_bump sh nv a True w6)"
        by (rule only_prints_trans[OF 6 commit_version_bump_dry])
    next
      fix w6 w7 assume 7: "only_prints w5 (None, w7)"
      show "only_prints w5 (git_push sh True w7)"
        by (rule only_prints_trans[OF 7 git_push_dry])
    qed
    from only_prints_trans[OF 5 this] Inr show ?thesis by simp
  qed
qed

subsection \<open>Errors\<close>

lemma and_then_None:
  assumes "fst (and_then r f) = None"
  obtains w' where "r = (None, w')" and "and_then r f = f w'"
  using assms by (cases r; cases "fst r") (auto simp: and_then_def)



lemma ints_of_length: "ints_of ps = Inr t \<Longrightarrow> length t = length ps"
  by (induction ps arbitrary: t) (auto split: option.splits sum.splits)

lemma split_on_nonempty: "split_on d s \<noteq> []"
  by (induction s) (auto split: list.splits)


lemma version_ints_nonempty: "version_ints v = Inr t \<Longrightarrow> t \<noteq> []"
  using ints_of_length[of "split_on (CHR ''.'') (strip_pre v)" t] split_on_nonempty
  by (auto simp: version_ints_def)



lemma incr_last_eq: "t \<noteq> [] \<Longrightarrow> incr_last t = Some (butlast t @ [last t + 1])"
  by (induction t rule: incr_last.induct) auto










lemma digit_char_digit: "is_digit (digit_char n)"
proof -
  have "n mod 10 < length ''0123456789''" by simp
  then have "''0123456789'' ! (n mod 10) \<in> set ''0123456789''" by (rule nth_mem)
  then show ?thesis unfolding digit_char_def is_digit_def .
qed

lemma nat_digits_chars: "c \<in> set (nat_digits n) \<Longrightarrow> is_digit c"
proof (induction n rule: nat_digits.induct)
  case (1 n)
  show ?case
  proof (cases "n < 10")
    case True
    then have "nat_digits n = [digit_char n]" by (simp add: nat_digits.simps)
    with 1(2) digit_char_digit[of n] show ?thesis by simp
  next
    case False
    then have "nat_digits n = nat_digits (n div 10) @ [digit_char n]"
      by (simp add: nat_digits.simps)
    with 1(1)[OF False] 1(2) digit_char_digit[of n] show ?thesis by auto
  qed
qed

lemma py_str_chars: "c \<in> set (py_str i) \<Longrightarrow> ver_char c"
  using nat_digits_chars[of c "nat i"] nat_digits_chars[of c "nat (- i)"]
  by (auto simp: py_str_def ver_char_def split: if_splits)

lemma join_with_chars:
  "c \<in> set (join_with d ps) \<Longrightarrow> c \<in> set d \<or> (\<exists>p \<in> set ps. c \<in> set p)"
  by (induction d ps rule: join_with.induct) auto

lemma ver_char_clean: "ver_char c \<Longrightarrow> c \<noteq> BSL \<and> c \<noteq> DQ \<and> c \<noteq> NL"
  by (auto simp: ver_char_def is_digit_def)

lemma next_version_chars:
  assumes "next_version v = Inr nv" and "c \<in> set nv"
  shows "ver_char c \<or> c = CHR ''1''"
proof -
  from assms(1) obtain t where nv: "nv = join_with ''.'' (map py_str t) @ ''-pre1''"
    by (auto simp: next_version_def split: sum.splits option.splits)
  from assms(2) nv consider "c \<in> set (join_with ''.'' (map py_str t))" | "c \<in> set ''-pre1''"
    by auto
  then show ?thesis
  proof cases
    case 1
    from join_with_chars[OF 1] py_str_chars show ?thesis
      by (auto simp: ver_char_def)
  next
    case 2
    then show ?thesis by (auto simp: ver_char_def)
  qed
qed

lemma next_version_clean:
  assumes "next_version v = Inr nv"
  shows "BSL \<notin> set nv" and "DQ \<notin> set nv" and "NL \<notin> set nv"
  using next_version_chars[OF assms] ver_char_clean by fastforce+



subsection \<open>Commands that succeed\<close>

lemma build_filenames_layout:
  "build_filenames w =
     map (\<lambda>(root, name). path_join root name)
       (filter (\<lambda>(root, name). name = ''build.gradle.kts'') (layout w))"
  by (simp add: build_filenames_def layout_def filter_map comp_def case_prod_unfold)

lemma paths_layout: "paths w = map (\<lambda>(root, name). path_join root name) (layout w)"
  by (simp add: paths_def layout_def comp_def case_prod_unfold)

lemma layout_write_file [simp]: "layout (write_file p c w) = layout w"
  by (auto simp: layout_def write_file_def split: prod.splits)

lemma executed_write_file [simp]: "executed (write_file p c w) = executed w"
  by (simp add: write_file_def)

lemma printed_write_file [simp]: "printed (write_file p c w) = printed w"
  by (simp add: write_file_def)

lemma write_versions_frame:
  "layout (snd (write_versions tmpl v False ps w)) = layout w
   \<and> executed (snd (write_versions tmpl v False ps w)) = executed w
   \<and> printed (snd (write_versions tmpl v False ps w)) = printed w"
proof (induction ps arbitrary: w)
  case Nil
  show ?case by simp
next
  case (Cons p ps)
  show ?case
  proof (cases "read_file w p")
    case None
    then show ?thesis by simp
  next
    case (Some c)
    show ?thesis
    proof (cases "VERSION_RE_sub_repl tmpl (version_line v) c")
      case (Inl e)
      with Some show ?thesis by simp
    next
      case (Inr c')
      with Some Cons.IH[of "write_file p c' w"] show ?thesis by simp
    qed
  qed
qed

lemma set_version_frame:
  "layout (snd (set_version tmpl v False w)) = layout w
   \<and> executed (snd (set_version tmpl v False w)) = executed w
   \<and> printed (snd (set_version tmpl v False w)) = printed w"
  using write_versions_frame[of tmpl v "build_filenames w" w]
  by (auto simp: set_version_def split: sum.splits list.splits)

lemma run_command_real:
  "run_command sh c False w =
     (if sh w c then None else Some (CalledProcessError c), w\<lparr>executed := executed w @ [c]\<rparr>)"
  by (simp add: run_command_def)

lemma run_command_ok:
  "fst (run_command sh c False w) = None \<Longrightarrow>
     run_command sh c False w = (None, w\<lparr>executed := executed w @ [c]\<rparr>)"
  by (simp add: run_command_def split: if_splits)

lemma build_filenames_executed [simp]: "build_filenames (w\<lparr>executed := x\<rparr>) = build_filenames w"
  by (simp add: build_filenames_def)

lemma add_files_ok:
  "fst (add_files sh False ps w) = None \<Longrightarrow>
     add_files sh False ps w =
       (None, w\<lparr>executed := executed w @ map (\<lambda>p. [''git'', ''add'', p]) ps\<rparr>)"
proof (induction ps arbitrary: w)
  case Nil
  show ?case by simp
next
  case (Cons p ps)
  from Cons.prems obtain w' where
    1: "run_command sh [''git'', ''add'', p] False w = (None, w')"
    and 2: "add_files sh False (p # ps) w = add_files sh False ps w'"
    unfolding add_files.simps by (rule and_then_None)
  from 1 have w': "w' = w\<lparr>executed := executed w @ [[''git'', ''add'', p]]\<rparr>"
    by (simp add: run_command_real)
  from Cons.prems 2 have "fst (add_files sh False ps w') = None" by simp
  from Cons.IH[OF this] 2 w' show ?case by simp
qed

lemma commit_version_bump_ok:
  assumes "fst (commit_version_bump sh v a False w) = None"
  shows "commit_version_bump sh v a False w =
       (None, w\<lparr>executed := executed w @ map (\<lambda>p. [''git'', ''add'', p]) (build_filenames w)
                    @ [commit_command v a]\<rparr>)"
proof -
  from assms obtain w' where
    1: "add_files sh False (build_filenames w) w = (None, w')"
    and 2: "commit_version_bump sh v a False w =
        run_command sh [''git'', ''commit'', ''-m'', VERSION_BUMP_COMMIT_TEMPLATE v a] False w'"
    unfolding commit_version_bump_def by (rule and_then_None)
  from 1 add_files_ok[of sh "build_filenames w" w]
  have w': "w' = w\<lparr>executed := executed w @ map (\<lambda>p. [''git'', ''add'', p]) (build_filenames w)\<rparr>"
    by simp
  from assms 2 have "fst (run_command sh [''git'', ''commit'', ''-m'',
      VERSION_BUMP_COMMIT_TEMPLATE v a] False w') = None" by simp
  from run_command_ok[OF this] 2 w' show ?thesis by (simp add: commit_command_def)
qed

lemma git_push_ok:
  assumes "fst (git_push sh False w) = None"
  shows "git_push sh False w =
       (None, w\<lparr>executed := executed w @ [[''git'', ''push''], [''git'', ''push'', ''--tags'']]\<rparr>)"
proof -
  from assms obtain w' where
    1: "run_command sh [''git'', ''push''] False w = (None, w')"
    and 2: "git_push sh False w = run_command sh [''git'', ''push'', ''--tags''] False w'"
    unfolding git_push_def by (rule and_then_None)
  from 1 have w': "w' = w\<lparr>executed := executed w @ [[''git'', ''push'']]\<rparr>"
    by (simp add: run_command_real)
  from assms 2 have "fst (run_command sh [''git'', ''push'', ''--tags''] False w') = None" by simp
  from run_command_ok[OF this] 2 w' show ?thesis by simp
qed

subsection \<open>A release that succeeds\<close>

lemma build_filenames_cong: "layout w' = layout w \<Longrightarrow> build_filenames w' = build_filenames w"
  by (simp add: build_filenames_layout)

lemma layout_executed [simp]: "layout (w\<lparr>executed := x\<rparr>) = layout w"
  by (simp add: layout_def)

lemma do_release_ok:
  assumes ok: "fst (do_release sh tmpl v a False w) = None"
  obtains nv w1 w2 where
    "next_version v = Inr nv"
    and "set_version tmpl v False w = (None, w1)"
    and "set_version tmpl nv False
           (w1\<lparr>executed := executed w @ release_commands v a (build_filenames w)\<rparr>) = (None, w2)"
    and "snd (do_release sh tmpl v a False w) =
           w2\<lparr>executed := executed w @ release_commands v a (build_filenames w)
                   @ bump_commands nv a (build_filenames w)\<rparr>"
proof -
  let ?A = "map (\<lambda>p. [''git'', ''add'', p]) (build_filenames w)"
  define k6 where "k6 = (\<lambda>nv w. and_then (commit_version_bump sh nv a False w) (git_push sh False))"
  define k5 where "k5 = (\<lambda>w. case next_version v of Inl e \<Rightarrow> (Some e, w)
        | Inr next \<Rightarrow> and_then (set_version tmpl next False w) (k6 next))"
  define k4 where "k4 = (\<lambda>w. and_then (do_publish sh False w) k5)"
  define k3 where "k3 = (\<lambda>w. and_then (git_push sh False w) k4)"
  define k2 where "k2 = (\<lambda>w. and_then (make_tag sh v False w) k3)"
  define k1 where "k1 = (\<lambda>w. and_then (commit_version_bump sh v a False w) k2)"
  have r0: "do_release sh tmpl v a False w = and_then (set_version tmpl v False w) k1"
    by (simp add: do_release_def k1_def k2_def k3_def k4_def k5_def k6_def cong: sum.case_cong)
  from ok[unfolded r0] obtain w1 where
    s1: "set_version tmpl v False w = (None, w1)"
    and "and_then (set_version tmpl v False w) k1 = k1 w1"
    by (rule and_then_None)
  with r0 have r1: "do_release sh tmpl v a False w = k1 w1" by simp
  from set_version_frame[of tmpl v w] s1
  have f1: "layout w1 = layout w" "executed w1 = executed w" by simp_all
  from f1(1) have b1: "build_filenames w1 = build_filenames w" by (rule build_filenames_cong)
  from ok[unfolded r1 k1_def] obtain w2' where
    s2: "commit_version_bump sh v a False w1 = (None, w2')"
    and "and_then (commit_version_bump sh v a False w1) k2 = k2 w2'"
    by (rule and_then_None)
  with r1 have r2: "do_release sh tmpl v a False w = k2 w2'" by (simp add: k1_def)
  from s2 commit_version_bump_ok[of sh v a w1] f1 b1
  have w2': "w2' = w1\<lparr>executed := executed w @ ?A @ [commit_command v a]\<rparr>" by simp
  from ok[unfolded r2 k2_def] obtain w3 where
    s3: "make_tag sh v False w2' = (None, w3)"
    and "and_then (make_tag sh v False w2') k3 = k3 w3"
    by (rule and_then_None)
  with r2 have r3: "do_release sh tmpl v a False w = k3 w3" by (simp add: k2_def)
  from s3 w2' have w3: "w3 = w1\<lparr>executed := executed w @ ?A @
      [commit_command v a, [''git'', ''tag'', ''v'' @ v]]\<rparr>"
    by (simp add: make_tag_def run_command_real)
  from ok[unfolded r3 k3_def] obtain w4 where
    s4: "git_push sh False w3 = (None, w4)"
    and "and_then (git_push sh False w3) k4 = k4 w4"
    by (rule and_then_None)
  with r3 have r4: "do_release sh tmpl v a False w = k4 w4" by (simp add: k3_def)
  from s4 git_push_ok[of sh w3] w3 have w4: "w4 = w1\<lparr>executed := executed w @ ?A @
      [commit_command v a, [''git'', ''tag'', ''v'' @ v], [''git'', ''push''],
       [''git'', ''push'', ''--tags'']]\<rparr>"
    by simp
  from ok[unfolded r4 k4_def] obtain w5 where
    s5: "do_publish sh False w4 = (None, w5)"
    and "and_then (do_publish sh False w4) k5 = k5 w5"
    by (rule and_then_None)
  with r4 have r5: "do_release sh tmpl v a False w = k5 w5" by (simp add: k4_def)
  from s5 w4 have w5: "w5 = w1\<lparr>executed := executed w @ release_commands v a (build_filenames w)\<rparr>"
    by (simp add: do_publish_def run_command_real release_commands_def)
  from ok[unfolded r5 k5_def] obtain nv where nv: "next_version v = Inr nv"
    by (cases "next_version v") auto
  with r5 have r5': "do_release sh tmpl v a False w =
      and_then (set_version tmpl nv False w5) (k6 nv)"
    by (simp add: k5_def)
  from ok[unfolded r5'] obtain w6 where
    s6: "set_version tmpl nv False w5 = (None, w6)"
    and "and_then (set_version tmpl nv False w5) (k6 nv) = k6 nv w6"
    by (rule and_then_None)
  with r5' have r6: "do_release sh tmpl v a False w = k6 nv w6" by simp
  from set_version_frame[of tmpl nv w5] s6 w5 f1
  have f6: "layout w6 = layout w" "executed w6 = executed w @ release_commands v a (build_filenames w)"
    by simp_all
  from f6(1) have b6: "build_filenames w6 = build_filenames w" by (rule build_filenames_cong)
  from ok[unfolded r6 k6_def] obtain w7 where
    s7: "commit_version_bump sh nv a False w6 = (None, w7)"
    and "and_then (commit_version_bump sh nv a False w6) (git_push sh False) = git_push sh False w7"
    by (rule and_then_None)
  with r6 have r7: "do_release sh tmpl v a False w = git_push sh False w7" by (simp add: k6_def)
  from s7 commit_version_bump_ok[of sh nv a w6] f6 b6
  have w7: "w7 = w6\<lparr>executed := executed w @ release_commands v a (build_filenames w) @ ?A
      @ [commit_command nv a]\<rparr>" by simp
  from ok[unfolded r7] have "git_push sh False w7 = (None, w7\<lparr>executed := executed w7 @
      [[''git'', ''push''], [''git'', ''push'', ''--tags'']]\<rparr>)"
    by (rule git_push_ok)
  with r7 w7
  have "snd (do_release sh tmpl v a False w) =
      w6\<lparr>executed := executed w @ release_commands v a (build_filenames w)
                   @ bump_commands nv a (build_filenames w)\<rparr>"
    by (simp add: bump_commands_def)
  with nv s1 s6 w5 that show ?thesis by blast
qed

subsection \<open>Lines and the pattern\<close>

lemma first_line_Nil [simp]: "first_line [] = []"
  by (simp add: first_line_def)

lemma after_line_Nil [simp]: "after_line [] = []"
  by (simp add: after_line_def)

lemma first_line_Cons:
  "first_line (x # xs) = (if x = NL then [NL] else x # first_line xs)"
  by (simp add: first_line_def)

lemma after_line_Cons:
  "after_line (x # xs) = (if x = NL then xs else after_line xs)"
  by (simp add: after_line_def)

lemma first_after_line: "first_line c @ after_line c = c"
  by (induction c) (auto simp: first_line_Cons after_line_Cons)

lemma first_line_nonempty: "c \<noteq> [] \<Longrightarrow> first_line c \<noteq> []"
  by (cases c) (auto simp: first_line_Cons)

lemma length_after_line:
  assumes "c \<noteq> []"
  shows "length (after_line c) < length c"
proof -
  have "length c = length (first_line c) + length (after_line c)"
    using first_after_line[of c] length_append[of "first_line c" "after_line c"] by simp
  moreover have "length (first_line c) > 0" using first_line_nonempty[OF assms] by simp
  ultimately show ?thesis by simp
qed

lemma readlines_unfold: "c \<noteq> [] \<Longrightarrow> readlines c = first_line c # readlines (after_line c)"
proof (induction c)
  case Nil
  then show ?case by simp
next
  case (Cons x xs)
  show ?case
  proof (cases "x = NL")
    case True
    then show ?thesis by (simp add: first_line_Cons after_line_Cons)
  next
    case False
    show ?thesis
    proof (cases xs)
      case Nil
      with False show ?thesis by (simp add: first_line_Cons after_line_Cons)
    next
      case (Cons y ys)
      with Cons.IH have "readlines xs = first_line xs # readlines (after_line xs)" by simp
      with False show ?thesis by (simp add: first_line_Cons after_line_Cons)
    qed
  qed
qed

lemma first_line_append: "NL \<notin> set a \<Longrightarrow> first_line (a @ s) = a @ first_line s"
  by (induction a) (auto simp: first_line_Cons)


lemma is_line_first_line: "is_line (first_line c)"
proof (induction c)
  case Nil
  show ?case by (simp add: is_line_def)
next
  case (Cons x xs)
  then show ?case
    by (cases xs) (auto simp: is_line_def first_line_Cons)
qed

lemma after_line_nonempty_last:
  "after_line c \<noteq> [] \<Longrightarrow> \<exists>a. first_line c = a @ [NL] \<and> NL \<notin> set a"
proof (induction c)
  case Nil
  then show ?case by simp
next
  case (Cons x xs)
  show ?case
  proof (cases "x = NL")
    case True
    then show ?thesis by (simp add: first_line_Cons)
  next
    case False
    with Cons.prems have "after_line xs \<noteq> []" by (simp add: after_line_Cons)
    from Cons.IH[OF this] obtain a where "first_line xs = a @ [NL]" "NL \<notin> set a" by blast
    with False have "first_line (x # xs) = (x # a) @ [NL] \<and> NL \<notin> set (x # a)"
      by (simp add: first_line_Cons)
    then show ?thesis by blast
  qed
qed

lemma readlines_line_append:
  "NL \<notin> set a \<Longrightarrow> readlines ((a @ [NL]) @ t) = (a @ [NL]) # readlines t"
  by (induction a) auto

lemma VERSION_RE_match_Nil [simp]: "VERSION_RE_match [] = None"
  by (simp add: VERSION_RE_match_def version_prefix_def)

lemma length_version_prefix [simp]: "length version_prefix = 11"
  by (simp add: version_prefix_def)

lemma version_prefix_chars [simp]: "NL \<notin> set version_prefix"
  by (simp add: version_prefix_def)

lemma VERSION_RE_match_prefix:
  "VERSION_RE_match (version_prefix @ s) =
     (if takeWhile (\<lambda>x. x \<noteq> DQ) s \<noteq> [] \<and> dropWhile (\<lambda>x. x \<noteq> DQ) s \<noteq> []
      then Some (takeWhile (\<lambda>x. x \<noteq> DQ) s, tl (dropWhile (\<lambda>x. x \<noteq> DQ) s)) else None)"
  by (simp add: VERSION_RE_match_def Let_def)

lemma VERSION_RE_match_SomeD:
  assumes "VERSION_RE_match s = Some (g, r)"
  shows "s = version_prefix @ g @ DQ # r" and "g \<noteq> []" and "DQ \<notin> set g"
proof -
  let ?d = "drop 11 s"
  from assms have p: "take 11 s = version_prefix"
    and g: "g = takeWhile (\<lambda>x. x \<noteq> DQ) ?d" and ne: "g \<noteq> []"
    and dw: "dropWhile (\<lambda>x. x \<noteq> DQ) ?d \<noteq> []" and r: "r = tl (dropWhile (\<lambda>x. x \<noteq> DQ) ?d)"
    by (auto simp: VERSION_RE_match_def Let_def split: if_splits)
  from dw have "hd (dropWhile (\<lambda>x. x \<noteq> DQ) ?d) = DQ"
    using hd_dropWhile[of "\<lambda>x. x \<noteq> DQ" ?d] by simp
  with dw r have "dropWhile (\<lambda>x. x \<noteq> DQ) ?d = DQ # r"
    by (cases "dropWhile (\<lambda>x. x \<noteq> DQ) ?d") auto
  with g have "?d = g @ DQ # r" using takeWhile_dropWhile_id[of "\<lambda>x. x \<noteq> DQ" ?d] by simp
  with p show "s = version_prefix @ g @ DQ # r"
    using append_take_drop_id[of 11 s] by simp
  show "g \<noteq> []" by fact
  from g show "DQ \<notin> set g" by (auto dest: set_takeWhileD)
qed

lemma takeWhile_until: "x \<notin> set g \<Longrightarrow> takeWhile (\<lambda>y. y \<noteq> x) (g @ x # r) = g"
  by (induction g) auto

lemma dropWhile_until: "x \<notin> set g \<Longrightarrow> dropWhile (\<lambda>y. y \<noteq> x) (g @ x # r) = x # r"
  by (induction g) auto

lemma VERSION_RE_match_intro:
  "g \<noteq> [] \<Longrightarrow> DQ \<notin> set g \<Longrightarrow> VERSION_RE_match (version_prefix @ g @ DQ # r) = Some (g, r)"
  by (simp add: VERSION_RE_match_prefix takeWhile_until[of DQ g r] dropWhile_until[of DQ g r])

lemma VERSION_RE_match_append:
  assumes "VERSION_RE_match a = Some (g, r)"
  shows "VERSION_RE_match (a @ b) = Some (g, r @ b)"
proof -
  from VERSION_RE_match_SomeD[OF assms]
  have "a @ b = version_prefix @ g @ DQ # (r @ b)" and "g \<noteq> []" and "DQ \<notin> set g" by simp_all
  then show ?thesis using VERSION_RE_match_intro[of g "r @ b"] by simp
qed

lemma VERSION_RE_match_first_line:
  "VERSION_RE_match c = None \<Longrightarrow> VERSION_RE_match (first_line c) = None"
proof (rule ccontr)
  assume n: "VERSION_RE_match c = None" and "VERSION_RE_match (first_line c) \<noteq> None"
  then obtain g r where "VERSION_RE_match (first_line c) = Some (g, r)" by auto
  from VERSION_RE_match_append[OF this, of "after_line c"] n show False
    by (simp add: first_after_line)
qed

lemma search_False_line: "is_line l \<Longrightarrow> VERSION_RE_search False l = None"
proof (induction l)
  case Nil
  show ?case by simp
next
  case (Cons x xs)
  show ?case
  proof (cases xs)
    case Nil
    then show ?thesis by simp
  next
    case (Cons y ys)
    with Cons.prems have "x \<noteq> NL" "is_line xs" by (auto simp: is_line_def)
    with Cons.IH show ?thesis by simp
  qed
qed

lemma search_True_line:
  assumes "is_line l"
  shows "VERSION_RE_search True l = map_option fst (VERSION_RE_match l)"
proof (cases l)
  case Nil
  then show ?thesis by simp
next
  case (Cons x xs)
  show ?thesis
  proof (cases "VERSION_RE_match l")
    case (Some gr)
    with Cons show ?thesis by (cases gr) simp
  next
    case None
    show ?thesis
    proof (cases xs)
      case Nil
      with Cons None show ?thesis by simp
    next
      case c2: (Cons y ys)
      with assms Cons have "x \<noteq> NL" "is_line xs" by (auto simp: is_line_def)
      with search_False_line[of xs] Cons None show ?thesis by simp
    qed
  qed
qed

subsection \<open>Substitution and reading back\<close>

lemma sub_False: "VERSION_RE_sub f False c = first_line c @ VERSION_RE_sub f True (after_line c)"
  by (induction c) (auto simp: first_line_Cons after_line_Cons)

lemma sub_True_nomatch:
  assumes "VERSION_RE_match c = None"
  shows "VERSION_RE_sub f True c = first_line c @ VERSION_RE_sub f True (after_line c)"
proof (cases c)
  case Nil
  then show ?thesis by simp
next
  case (Cons x xs)
  with assms have "VERSION_RE_sub f True c = x # VERSION_RE_sub f (x = NL) xs" by simp
  with Cons sub_False[of f xs] show ?thesis
    by (cases "x = NL") (simp_all add: first_line_Cons after_line_Cons)
qed

lemma sub_True_match:
  assumes "VERSION_RE_match c = Some (g, r)"
  shows "VERSION_RE_sub f True c = f g @ VERSION_RE_sub f False r"
proof (cases c)
  case Nil
  with assms show ?thesis by simp
next
  case (Cons x xs)
  with assms show ?thesis by simp
qed

lemma first_match_version_line:
  assumes "clean x"
  shows "first_match (readlines (version_line x @ s)) = Some x"
proof -
  let ?a = "version_line x"
  from assms have nl: "NL \<notin> set ?a" by (simp add: version_line_def clean_def version_prefix_def)
  have ne: "?a @ s \<noteq> []" by (simp add: version_line_def)
  have fl: "first_line (?a @ s) = version_prefix @ x @ DQ # first_line s"
    using first_line_append[OF nl, of s] by (simp add: version_line_def)
  have "VERSION_RE_match (first_line (?a @ s)) = Some (x, first_line s)"
    unfolding fl using assms by (intro VERSION_RE_match_intro) (simp_all add: clean_def)
  with search_True_line[OF is_line_first_line, of "?a @ s"]
  have "VERSION_RE_search True (first_line (?a @ s)) = Some x" by simp
  with readlines_unfold[OF ne] show ?thesis by simp
qed

lemma first_match_nomatch:
  assumes "VERSION_RE_match c = None" and "c \<noteq> []"
  shows "first_match (readlines c) = first_match (readlines (after_line c))"
proof -
  from VERSION_RE_match_first_line[OF assms(1)] search_True_line[OF is_line_first_line, of c]
  have "VERSION_RE_search True (first_line c) = None" by simp
  with readlines_unfold[OF assms(2)] show ?thesis by simp
qed

lemma roundtrip_contents:
  assumes "clean x"
  shows "first_match (readlines c) = Some v \<Longrightarrow>
     first_match (readlines (VERSION_RE_sub (\<lambda>g. version_line x) True c)) = Some x"
proof (induction c rule: length_induct)
  case (1 c)
  let ?f = "\<lambda>g. version_line x"
  from 1(2) have ne: "c \<noteq> []" by auto
  show ?case
  proof (cases "VERSION_RE_match c")
    case (Some gr)
    obtain g r where "gr = (g, r)" by (cases gr)
    with Some sub_True_match[of c g r ?f]
    have "VERSION_RE_sub ?f True c = version_line x @ VERSION_RE_sub ?f False r" by simp
    with first_match_version_line[OF assms] show ?thesis by simp
  next
    case None
    let ?l = "first_line c" and ?r = "after_line c"
    from first_match_nomatch[OF None ne] 1(2) have fr: "first_match (readlines ?r) = Some v"
      by simp
    then have "?r \<noteq> []" by auto
    from after_line_nonempty_last[OF this] obtain a where a: "?l = a @ [NL]" "NL \<notin> set a"
      by blast
    from 1(1) length_after_line[OF ne] fr
    have ih: "first_match (readlines (VERSION_RE_sub ?f True ?r)) = Some x" by blast
    have s: "VERSION_RE_sub ?f True c = ?l @ VERSION_RE_sub ?f True ?r"
      by (rule sub_True_nomatch[OF None])
    from VERSION_RE_match_first_line[OF None] search_True_line[OF is_line_first_line, of c]
    have n: "VERSION_RE_search True ?l = None" by simp
    have "readlines (?l @ VERSION_RE_sub ?f True ?r) = ?l # readlines (VERSION_RE_sub ?f True ?r)"
      unfolding a(1) by (rule readlines_line_append[OF a(2)])
    with s n ih show ?thesis by simp
  qed
qed

lemma read_file_write_file:
  "read_file (write_file p c' w) q =
     (if q = p then (if p \<in> set (paths w) then Some c' else None) else read_file w q)"
proof -
  let ?k = "\<lambda>(root, name, contents). (path_join root name, contents)"
  let ?u = "\<lambda>(root, name, contents).
             if path_join root name = p then (root, name, c') else (root, name, contents)"
  let ?pj = "\<lambda>(root, name, contents). path_join root name"
  have "map_of (map ?k (map ?u fs)) q
      = (if q = p then (if p \<in> set (map ?pj fs) then Some c' else None)
         else map_of (map ?k fs) q)"
    for fs :: "(string \<times> string \<times> string) list"
  proof (induction fs)
    case Nil
    show ?case by simp
  next
    case (Cons a fs)
    obtain r n d where a: "a = (r, n, d)" by (cases a)
    show ?case
    proof (cases "path_join r n = p")
      case True
      with a Cons show ?thesis by (cases "q = p") simp_all
    next
      case False
      with a Cons show ?thesis by (cases "q = p") simp_all
    qed
  qed
  then show ?thesis by (simp add: read_file_def write_file_def paths_def)
qed

lemma get_version_cong:
  "read_file w' q = read_file w q \<Longrightarrow> get_version_from_build w' q = get_version_from_build w q"
  by (simp add: get_version_from_build_def)

lemma get_version_Inr:
  "(get_version_from_build w q = Inr v) =
     (\<exists>c. read_file w q = Some c \<and> first_match (readlines c) = Some v)"
  by (auto simp: get_version_from_build_def split: option.splits)

lemma write_versions_other:
  "q \<notin> set ps \<Longrightarrow> read_file (snd (write_versions tmpl x False ps w)) q = read_file w q"
proof (induction ps arbitrary: w)
  case Nil
  show ?case by simp
next
  case (Cons p ps)
  show ?case
  proof (cases "read_file w p")
    case None
    then show ?thesis by simp
  next
    case (Some c)
    show ?thesis
    proof (cases "VERSION_RE_sub_repl tmpl (version_line x) c")
      case (Inl e)
      with Some show ?thesis by simp
    next
      case (Inr c')
      from Cons.prems have "q \<notin> set ps" "q \<noteq> p" by auto
      with Cons.IH[of "write_file p c' w"] Some Inr show ?thesis
        by (simp add: read_file_write_file)
    qed
  qed
qed

lemma write_versions_reads:
  assumes "clean x" and "BSL \<notin> set x"
  shows "\<forall>q \<in> set ps. \<exists>v. get_version_from_build w q = Inr v \<Longrightarrow>
     \<forall>q \<in> set ps. get_version_from_build (snd (write_versions tmpl x False ps w)) q = Inr x"
proof (induction ps arbitrary: w)
  case Nil
  show ?case by simp
next
  case (Cons p ps)
  let ?f = "\<lambda>g. version_line x"
  from Cons.prems obtain v where "get_version_from_build w p = Inr v" by auto
  then obtain c where c: "read_file w p = Some c" and m: "first_match (readlines c) = Some v"
    by (auto simp: get_version_Inr)
  let ?c' = "VERSION_RE_sub ?f True c"
  let ?w1 = "write_file p ?c' w"
  have sub: "VERSION_RE_sub_repl tmpl (version_line x) c = Inr ?c'"
    using compile_repl_literal[OF assms(2), of tmpl] by (simp add: VERSION_RE_sub_repl_def)
  with c have step: "write_versions tmpl x False (p # ps) w = write_versions tmpl x False ps ?w1"
    by simp
  from c have pin: "p \<in> set (paths w)" using read_file_paths[of w p] by auto
  have p1: "get_version_from_build ?w1 p = Inr x"
    using roundtrip_contents[OF assms(1) m] pin
    by (simp add: get_version_Inr read_file_write_file)
  have other: "\<And>q. q \<noteq> p \<Longrightarrow> get_version_from_build ?w1 q = get_version_from_build w q"
    by (rule get_version_cong) (simp add: read_file_write_file)
  have "\<forall>q \<in> set ps. \<exists>v. get_version_from_build ?w1 q = Inr v"
  proof
    fix q assume "q \<in> set ps"
    with Cons.prems p1 other[of q] show "\<exists>v. get_version_from_build ?w1 q = Inr v"
      by (cases "q = p") auto
  qed
  from Cons.IH[OF this]
  have ih: "\<forall>q \<in> set ps. get_version_from_build (snd (write_versions tmpl x False ps ?w1)) q = Inr x" .
  show ?case
  proof
    fix q assume q: "q \<in> set (p # ps)"
    show "get_version_from_build (snd (write_versions tmpl x False (p # ps) w)) q = Inr x"
    proof (cases "q \<in> set ps")
      case True
      with ih step show ?thesis by simp
    next
      case False
      with q have "q = p" by simp
      from False have "read_file (snd (write_versions tmpl x False ps ?w1)) q = read_file ?w1 q"
        by (rule write_versions_other)
      from get_version_cong[OF this] p1 \<open>q = p\<close> step show ?thesis by simp
    qed
  qed
qed

lemma collect_versions_Inr:
  "collect_versions w ps = Inr vs \<Longrightarrow> \<forall>q \<in> set ps. \<exists>v. get_version_from_build w q = Inr v"
  by (induction ps arbitrary: vs) (auto split: sum.splits)

lemma collect_versions_all:
  "\<forall>q \<in> set ps. get_version_from_build w q = Inr x \<Longrightarrow>
     collect_versions w ps = Inr (map (\<lambda>p. x) ps)"
  by (induction ps) auto

lemma version_ints_Nil: "version_ints [] \<noteq> Inr t"
  by (simp add: version_ints_def py_int_def strip_def)

lemma set_version_ok:
  assumes "fst (set_version tmpl x dry w) = None"
  obtains vs b where "collect_versions w (build_filenames w) = Inr vs"
    and "version_ints x = Inr b"
    and "set_version tmpl x dry w = write_versions tmpl x dry (build_filenames w) w"
proof -
  from assms obtain vs where vs: "collect_versions w (build_filenames w) = Inr vs"
    by (cases "collect_versions w (build_filenames w)") (auto simp: set_version_def)
  with assms have card: "card (set vs) = 1"
    by (auto simp: set_version_def split: if_splits)
  then obtain old vs' where o: "vs = old # vs'" by (cases vs) auto
  from assms vs card o obtain ok where ok: "version_ok old x = Inr ok"
    by (cases "version_ok old x") (auto simp: set_version_def)
  with assms vs card o have "ok" and
    sv: "set_version tmpl x dry w = write_versions tmpl x dry (build_filenames w) w"
    by (auto simp: set_version_def split: if_splits)
  from ok obtain b where "version_ints x = Inr b"
    by (auto simp: version_ok_def compare_ints_def split: if_splits sum.splits)
  with vs sv that show ?thesis by blast
qed

lemma set_version_reads_back:
  assumes "fst (set_version tmpl x False w) = None"
    and "DQ \<notin> set x" and "BSL \<notin> set x" and "NL \<notin> set x"
  shows "build_filenames (snd (set_version tmpl x False w)) = build_filenames w
     \<and> (\<forall>p \<in> set (build_filenames w).
           get_version_from_build (snd (set_version tmpl x False w)) p = Inr x)
     \<and> collect_versions (snd (set_version tmpl x False w)) (build_filenames w)
           = Inr (map (\<lambda>p. x) (build_filenames w))"
proof -
  from assms(1) obtain vs b where vs: "collect_versions w (build_filenames w) = Inr vs"
    and b: "version_ints x = Inr b"
    and sv: "set_version tmpl x False w = write_versions tmpl x False (build_filenames w) w"
    by (rule set_version_ok)
  from b have "x \<noteq> []" using version_ints_Nil by auto
  with assms(2,4) have cl: "clean x" by (simp add: clean_def)
  from set_version_frame[of tmpl x w]
  have 1: "build_filenames (snd (set_version tmpl x False w)) = build_filenames w"
    by (intro build_filenames_cong) simp
  from write_versions_reads[OF cl assms(3) collect_versions_Inr[OF vs], of tmpl] sv
  have 2: "\<forall>p \<in> set (build_filenames w).
           get_version_from_build (snd (set_version tmpl x False w)) p = Inr x" by simp
  have 3: "collect_versions (snd (set_version tmpl x False w)) (build_filenames w)
           = Inr (map (\<lambda>p. x) (build_filenames w))"
    by (rule collect_versions_all[OF 2])
  show ?thesis by (intro conjI 1 2 3)
qed

lemma read_file_executed [simp]: "read_file (w\<lparr>executed := x\<rparr>) p = read_file w p"
  by (simp add: read_file_def)

lemma get_version_executed [simp]:
  "get_version_from_build (w\<lparr>executed := x\<rparr>) p = get_version_from_build w p"
  by (simp add: get_version_from_build_def)

lemma next_version_eq:
  assumes "version_ints v = Inr t"
  shows "next_version v = Inr (join_with ''.'' (map py_str (butlast t @ [last t + 1])) @ ''-pre1'')"
  using assms incr_last_eq[OF version_ints_nonempty[OF assms]] by (simp add: next_version_def)

lemma next_version_Inr:
  assumes "next_version v = Inr nv"
  obtains t where "version_ints v = Inr t"
    and "nv = join_with ''.'' (map py_str (butlast t @ [last t + 1])) @ ''-pre1''"
proof -
  from assms obtain t where t: "version_ints v = Inr t"
    by (cases "version_ints v") (auto simp: next_version_def)
  from next_version_eq[OF t] assms that t show ?thesis by simp
qed

lemma do_release_bump:
  assumes ok: "fst (do_release sh tmpl v a False w) = None"
  obtains nv before where "next_version v = Inr nv"
    and "executed (snd (do_release sh tmpl v a False w)) =
           before @ [commit_command nv a, [''git'', ''push''], [''git'', ''push'', ''--tags'']]"
    and "\<forall>p \<in> set (build_filenames w).
           get_version_from_build (snd (do_release sh tmpl v a False w)) p = Inr nv"
proof -
  from ok obtain nv w1 w2 where nv: "next_version v = Inr nv"
    and s1: "set_version tmpl v False w = (None, w1)"
    and s2: "set_version tmpl nv False
           (w1\<lparr>executed := executed w @ release_commands v a (build_filenames w)\<rparr>) = (None, w2)"
    and r: "snd (do_release sh tmpl v a False w) =
           w2\<lparr>executed := executed w @ release_commands v a (build_filenames w)
                   @ bump_commands nv a (build_filenames w)\<rparr>"
    by (rule do_release_ok)
  let ?w5 = "w1\<lparr>executed := executed w @ release_commands v a (build_filenames w)\<rparr>"
  from set_version_frame[of tmpl v w] s1 have "layout w1 = layout w" by simp
  then have "layout ?w5 = layout w" by simp
  then have b5: "build_filenames ?w5 = build_filenames w" by (rule build_filenames_cong)
  from s2 have ok2: "fst (set_version tmpl nv False ?w5) = None" by simp
  from set_version_reads_back[OF ok2 next_version_clean(2,1,3)[OF nv]] s2 b5
  have rd: "\<forall>p \<in> set (build_filenames w). get_version_from_build w2 p = Inr nv" by simp
  let ?before = "executed w @ release_commands v a (build_filenames w)
      @ map (\<lambda>p. [''git'', ''add'', p]) (build_filenames w)"
  from r have e: "executed (snd (do_release sh tmpl v a False w)) =
      ?before @ [commit_command nv a, [''git'', ''push''], [''git'', ''push'', ''--tags'']]"
    by (simp add: bump_commands_def)
  from r rd have "\<forall>p \<in> set (build_filenames w).
           get_version_from_build (snd (do_release sh tmpl v a False w)) p = Inr nv" by simp
  with nv e that show ?thesis by blast
qed

subsection \<open>Substitution line by line\<close>









section \<open>The claims\<close>

text \<open>
  \<^bold>\<open>C1\<close> (the increase policy of \<^verbatim>\<open>set_version\<close>). In a working tree whose build files
  all declare the version \<open>old\<close>, with \<open>a\<close> and \<open>b\<close> the numeric tuples of \<open>old\<close> and of the
  requested version \<open>new\<close>: \<^verbatim>\<open>set_version\<close> rejects the change (it raises
  \<^verbatim>\<open>InvalidVersionError\<close> "Changing versions ... not allowed") if and only if the policy does
  not permit it, and for a requested version without a backslash it returns normally if and
  only if the policy permits it. In particular a change from a version without pre-release
  suffix to itself is rejected, and a change from a pre-release of \<open>new\<close> to \<open>new\<close> is
  permitted.
\<close>

theorem increase_policy:
  assumes "collect_versions w (build_filenames w) = Inr vs" and "set vs = {old}"
    and "version_ints old = Inr a" and "version_ints new = Inr b"
  shows "((fst (set_version tmpl new dry w) = Some (InvalidVersionError (NotAllowed old new)))
            = (\<not> increase_permitted old a b))
       \<and> (BSL \<notin> set new \<longrightarrow>
            (fst (set_version tmpl new dry w) = None) = increase_permitted old a b)
       \<and> (\<not> str_in ''-pre'' old \<and> new = old \<longrightarrow>
            fst (set_version tmpl new dry w) = Some (InvalidVersionError (NotAllowed old new)))
       \<and> (NL \<notin> set s \<and> old = new @ ''-pre'' @ s \<longrightarrow> increase_permitted old a b)"
proof -
  note sv = set_version_policy[OF assms, of tmpl dry]
  have 1: "(fst (set_version tmpl new dry w) = Some (InvalidVersionError (NotAllowed old new)))
            = (\<not> increase_permitted old a b)"
    using sv write_versions_not_policy[of tmpl new dry w] by (cases "increase_permitted old a b") simp_all
  have 2: "BSL \<notin> set new \<longrightarrow>
            (fst (set_version tmpl new dry w) = None) = increase_permitted old a b"
    using sv write_versions_literal_ok[of new tmpl dry w] by (cases "increase_permitted old a b") simp_all
  have 3: "\<not> str_in ''-pre'' old \<and> new = old \<longrightarrow>
            fst (set_version tmpl new dry w) = Some (InvalidVersionError (NotAllowed old new))"
  proof
    assume h: "\<not> str_in ''-pre'' old \<and> new = old"
    with assms(3,4) have "a = b" by simp
    moreover have "(b, b) \<notin> lexord {(x, y). x < y}" by (rule lexord_irreflexive) simp
    ultimately have "\<not> increase_permitted old a b" using h by (simp add: increase_permitted_def)
    with 1 show "fst (set_version tmpl new dry w) = Some (InvalidVersionError (NotAllowed old new))"
      by blast
  qed
  have 4: "NL \<notin> set s \<and> old = new @ ''-pre'' @ s \<longrightarrow> increase_permitted old a b"
  proof
    assume h: "NL \<notin> set s \<and> old = new @ ''-pre'' @ s"
    then have "version_ints old = version_ints new" using version_ints_suffix[of s new] by blast
    with assms(3,4) have "a = b" by simp
    moreover from h have "str_in ''-pre'' old" using str_in_append[of "''-pre''" new s] by blast
    ultimately show "increase_permitted old a b" by (simp add: increase_permitted_def)
  qed
  from 1 2 3 4 show ?thesis by blast
qed

theorem increase_policy_witness:
  "collect_versions (tree_at ''0.2.0-pre3'' ''0.2.0-pre3'')
       (build_filenames (tree_at ''0.2.0-pre3'' ''0.2.0-pre3'')) = Inr [''0.2.0-pre3'', ''0.2.0-pre3'']
   \<and> set [''0.2.0-pre3'', ''0.2.0-pre3''] = {''0.2.0-pre3''}
   \<and> version_ints ''0.2.0-pre3'' = Inr [0, 2, 0]
   \<and> version_ints ''0.2.0'' = Inr [0, 2, 0]
   \<and> NL \<notin> set ''3'' \<and> ''0.2.0-pre3'' = ''0.2.0'' @ ''-pre'' @ ''3'' \<and> BSL \<notin> set ''0.2.0''
   \<and> increase_permitted ''0.2.0-pre3'' [0, 2, 0] [0, 2, 0]
   \<and> fst (set_version no_templates ''0.2.0'' False (tree_at ''0.2.0-pre3'' ''0.2.0-pre3'')) = None"
proof -
  let ?w = "tree_at ''0.2.0-pre3'' ''0.2.0-pre3''"
  have h1: "collect_versions ?w (build_filenames ?w) = Inr [''0.2.0-pre3'', ''0.2.0-pre3'']"
    by code_simp
  have h2: "set [''0.2.0-pre3'', ''0.2.0-pre3''] = {''0.2.0-pre3''}" by simp
  have h3: "version_ints ''0.2.0-pre3'' = Inr [0, 2, 0]" by code_simp
  have h4: "version_ints ''0.2.0'' = Inr [0, 2, 0]" by code_simp
  have h5: "NL \<notin> set ''3'' \<and> ''0.2.0-pre3'' = ''0.2.0'' @ ''-pre'' @ ''3''" by simp
  have h6: "BSL \<notin> set ''0.2.0''" by simp
  from increase_policy[OF h1 h2 h3 h4, of no_templates False "''3''"] h5 h6
  have "increase_permitted ''0.2.0-pre3'' [0, 2, 0] [0, 2, 0]
     \<and> fst (set_version no_templates ''0.2.0'' False ?w) = None"
    by blast
  with h1 h2 h3 h4 h5 h6 show ?thesis by blast
qed

text \<open>
  \<^bold>\<open>C3\<close> (inconsistent build files). When the build files declare more than one version,
  \<^verbatim>\<open>set_version\<close> raises \<^verbatim>\<open>InvalidVersionError\<close> with the versions found, and the world
  (the contents of every file included) is as before, whatever the requested version and
  the dry-run flag.
\<close>

theorem set_version_inconsistent:
  assumes "collect_versions w (build_filenames w) = Inr versions"
    and "1 < card (set versions)"
  shows "set_version tmpl version dry_run w =
           (Some (InvalidVersionError (Inconsistent versions)), w)"
  using assms by (simp add: set_version_def)

theorem set_version_inconsistent_witness:
  "collect_versions (tree_at ''0.1.9'' ''0.1.8'') (build_filenames (tree_at ''0.1.9'' ''0.1.8''))
      = Inr [''0.1.9'', ''0.1.8'']
   \<and> 1 < card (set [''0.1.9'', ''0.1.8''])
   \<and> set_version no_templates ''0.1.10'' False (tree_at ''0.1.9'' ''0.1.8'')
      = (Some (InvalidVersionError (Inconsistent [''0.1.9'', ''0.1.8''])), tree_at ''0.1.9'' ''0.1.8'')"
proof -
  let ?w = "tree_at ''0.1.9'' ''0.1.8''"
  have h1: "collect_versions ?w (build_filenames ?w) = Inr [''0.1.9'', ''0.1.8'']"
    by code_simp
  have h2: "1 < card (set [''0.1.9'', ''0.1.8''])" by simp
  from set_version_inconsistent[OF h1 h2, of no_templates "''0.1.10''" False] h1 h2
  show ?thesis by blast
qed

text \<open>
  \<^bold>\<open>C4\<close> (dry runs). With the dry-run flag set, each of the six operations leaves the
  files and the list of executed commands as they were; its only effect is that lines are
  printed. The result of a dry release does not depend on what the external commands would
  do.
\<close>

theorem dry_run_only_prints:
  "only_prints w (set_version tmpl version True w)
   \<and> only_prints w (commit_version_bump sh version auditors True w)
   \<and> only_prints w (make_tag sh version True w)
   \<and> only_prints w (git_push sh True w)
   \<and> only_prints w (do_publish sh True w)
   \<and> only_prints w (do_release sh tmpl version auditors True w)
   \<and> do_release sh tmpl version auditors True w = do_release sh' tmpl version auditors True w"
  by (intro conjI set_version_dry commit_version_bump_dry make_tag_dry git_push_dry
      do_publish_dry do_release_dry do_release_dry_shell)

theorem dry_run_only_prints_witness:
  "files (snd (do_release all_succeed no_templates ''0.1.10'' ''alice'' True (tree_at ''0.1.9'' ''0.1.9'')))
     = files (tree_at ''0.1.9'' ''0.1.9'')
   \<and> executed (snd (do_release all_succeed no_templates ''0.1.10'' ''alice'' True (tree_at ''0.1.9'' ''0.1.9'')))
     = []
   \<and> fst (do_release all_succeed no_templates ''0.1.10'' ''alice'' True (tree_at ''0.1.9'' ''0.1.9'')) = None"
proof -
  let ?w = "tree_at ''0.1.9'' ''0.1.9''"
  let ?r = "do_release all_succeed no_templates ''0.1.10'' ''alice'' True ?w"
  from dry_run_only_prints[of ?w no_templates "''0.1.10''" all_succeed "''alice''"]
  have "only_prints ?w ?r" by blast
  then obtain lines where "snd ?r = ?w\<lparr>printed := printed ?w @ lines\<rparr>"
    unfolding only_prints_def by blast
  then have "files (snd ?r) = files ?w" "executed (snd ?r) = executed ?w" by simp_all
  moreover have "executed ?w = []" by (simp add: tree_at_def)
  moreover have "fst ?r = None" by code_simp
  ultimately show ?thesis by simp
qed

text \<open>
  \<^bold>\<open>C6\<close> (\<^verbatim>\<open>version_ints\<close>). The versions \<^verbatim>\<open>1.2.3\<close> and \<^verbatim>\<open>1.2.3-pre1\<close> both have
  the tuple \<open>[1, 2, 3]\<close>; appending a pre-release suffix (\<^verbatim>\<open>-pre\<close> and any text without a
  line break) to any string leaves the result of \<^verbatim>\<open>version_ints\<close> as it is; the result is
  the list of the integers that the components between the dots denote, in a text in which
  no \<^verbatim>\<open>-pre\<close> is left.
\<close>

theorem version_ints_ignores_pre_suffix:
  "version_ints ''1.2.3'' = Inr [1, 2, 3]
   \<and> version_ints ''1.2.3-pre1'' = Inr [1, 2, 3]
   \<and> (NL \<notin> set s \<longrightarrow> version_ints (v @ ''-pre'' @ s) = version_ints v)
   \<and> ((version_ints v = Inr t) = (map py_int (split_on (CHR ''.'') (strip_pre v)) = map Some t))
   \<and> \<not> str_in ''-pre'' (strip_pre v)"
proof -
  have 1: "version_ints ''1.2.3'' = Inr [1, 2, 3]" by code_simp
  have 2: "version_ints ''1.2.3-pre1'' = Inr [1, 2, 3]" by code_simp
  have 3: "NL \<notin> set s \<longrightarrow> version_ints (v @ ''-pre'' @ s) = version_ints v"
    using version_ints_suffix by blast
  have 4: "(version_ints v = Inr t) = (map py_int (split_on (CHR ''.'') (strip_pre v)) = map Some t)"
    by (simp add: version_ints_def ints_of_Inr_iff)
  from 1 2 3 4 strip_pre_no_pre show ?thesis by blast
qed

theorem version_ints_ignores_pre_suffix_witness:
  "NL \<notin> set ''7'' \<and> version_ints (''0.2.0'' @ ''-pre'' @ ''7'') = Inr [0, 2, 0]
   \<and> version_ints ''0.2.0'' = Inr [0, 2, 0]"
proof -
  have h: "NL \<notin> set ''7''" by simp
  have v: "version_ints ''0.2.0'' = Inr [0, 2, 0]" by code_simp
  from version_ints_ignores_pre_suffix[of "''7''" "''0.2.0''"] h
  have "version_ints (''0.2.0'' @ ''-pre'' @ ''7'') = version_ints ''0.2.0''" by blast
  with h v show ?thesis by simp
qed

text \<open>
  \<^bold>\<open>C10\<close> (no build files). When there is no build file, \<^verbatim>\<open>set_version\<close> raises
  \<^verbatim>\<open>InvalidVersionError\<close> (with the empty list of versions) for every requested version,
  and changes nothing.
\<close>

theorem set_version_no_build_files:
  assumes "build_filenames w = []"
  shows "set_version tmpl version dry_run w = (Some (InvalidVersionError (Inconsistent [])), w)"
  using assms by (simp add: set_version_def)

theorem set_version_no_build_files_witness:
  "build_filenames tree_without_build_files = []
   \<and> set_version no_templates ''0.1.10'' False tree_without_build_files
      = (Some (InvalidVersionError (Inconsistent [])), tree_without_build_files)"
proof -
  have h: "build_filenames tree_without_build_files = []" by code_simp
  from set_version_no_build_files[OF h, of no_templates "''0.1.10''" False] h
  show ?thesis by blast
qed







text \<open>
  \<^bold>\<open>C2\<close> (the next version). Releasing \<^verbatim>\<open>0.1.10\<close> gives the next version
  \<^verbatim>\<open>0.1.11-pre1\<close>. In general the next version is the numeric tuple of the released
  version with its last component incremented by one, the components written in decimal and
  joined with dots, followed by \<^verbatim>\<open>-pre1\<close>. In a release that returns normally (dry-run
  off) the commit of that next version is among the executed commands, and at the end every
  build file declares it.
\<close>

theorem next_version_computed:
  "next_version ''0.1.10'' = Inr ''0.1.11-pre1''
   \<and> (version_ints version = Inr t \<longrightarrow>
        next_version version =
          Inr (join_with ''.'' (map py_str (butlast t @ [last t + 1])) @ ''-pre1''))
   \<and> (fst (do_release sh tmpl version auditors False w) = None \<longrightarrow>
        (\<exists>t next. version_ints version = Inr t
           \<and> next = join_with ''.'' (map py_str (butlast t @ [last t + 1])) @ ''-pre1''
           \<and> commit_command next auditors
                \<in> set (executed (snd (do_release sh tmpl version auditors False w)))
           \<and> (\<forall>p \<in> set (build_filenames w).
                 get_version_from_build (snd (do_release sh tmpl version auditors False w)) p
                   = Inr next)))"
proof (intro conjI impI)
  show "next_version ''0.1.10'' = Inr ''0.1.11-pre1''" by code_simp
next
  assume "version_ints version = Inr t"
  then show "next_version version =
      Inr (join_with ''.'' (map py_str (butlast t @ [last t + 1])) @ ''-pre1'')"
    by (rule next_version_eq)
next
  assume ok: "fst (do_release sh tmpl version auditors False w) = None"
  let ?r = "do_release sh tmpl version auditors False w"
  from ok obtain nv before where nv: "next_version version = Inr nv"
    and e: "executed (snd ?r) =
           before @ [commit_command nv auditors, [''git'', ''push''], [''git'', ''push'', ''--tags'']]"
    and rd: "\<forall>p \<in> set (build_filenames w). get_version_from_build (snd ?r) p = Inr nv"
    by (rule do_release_bump)
  from nv obtain t where t: "version_ints version = Inr t"
    and n: "nv = join_with ''.'' (map py_str (butlast t @ [last t + 1])) @ ''-pre1''"
    by (rule next_version_Inr)
  from e have "commit_command nv auditors \<in> set (executed (snd ?r))" by simp
  with t n rd show "\<exists>t next. version_ints version = Inr t
           \<and> next = join_with ''.'' (map py_str (butlast t @ [last t + 1])) @ ''-pre1''
           \<and> commit_command next auditors \<in> set (executed (snd ?r))
           \<and> (\<forall>p \<in> set (build_filenames w). get_version_from_build (snd ?r) p = Inr next)"
    by blast
qed

theorem next_version_computed_witness:
  "version_ints ''0.1.10'' = Inr [0, 1, 10]
   \<and> next_version ''0.1.10'' = Inr ''0.1.11-pre1''
   \<and> fst (do_release all_succeed no_templates ''0.1.10'' ''alice'' False (tree_at ''0.1.9'' ''0.1.9''))
       = None
   \<and> commit_command ''0.1.11-pre1'' ''alice''
       \<in> set (executed (snd (do_release all_succeed no_templates ''0.1.10'' ''alice'' False
            (tree_at ''0.1.9'' ''0.1.9''))))
   \<and> get_version_from_build (snd (do_release all_succeed no_templates ''0.1.10'' ''alice'' False
            (tree_at ''0.1.9'' ''0.1.9''))) ''./core/build.gradle.kts'' = Inr ''0.1.11-pre1''"
proof -
  let ?w = "tree_at ''0.1.9'' ''0.1.9''"
  let ?r = "do_release all_succeed no_templates ''0.1.10'' ''alice'' False ?w"
  have h1: "version_ints ''0.1.10'' = Inr [0, 1, 10]" by code_simp
  have h2: "fst ?r = None" by code_simp
  have bf: "''./core/build.gradle.kts'' \<in> set (build_filenames ?w)" by code_simp
  note inst = next_version_computed[of "''0.1.10''" "[0, 1, 10]" all_succeed no_templates "''alice''" ?w]
  from inst have n: "next_version ''0.1.10'' = Inr ''0.1.11-pre1''" by blast
  from inst h2 obtain t nv where t: "version_ints ''0.1.10'' = Inr t"
    and nv: "nv = join_with ''.'' (map py_str (butlast t @ [last t + 1])) @ ''-pre1''"
    and c: "commit_command nv ''alice'' \<in> set (executed (snd ?r))"
    and rd: "\<forall>p \<in> set (build_filenames ?w). get_version_from_build (snd ?r) p = Inr nv"
    by blast
  from t h1 have "t = [0, 1, 10]" by simp
  with nv next_version_eq[OF h1] n have "nv = ''0.1.11-pre1''" by simp
  with c rd bf h1 h2 n show ?thesis by blast
qed

text \<open>
  \<^bold>\<open>C7\<close> (the last push). The claim that step 9 pushes commits only does not hold:
  \<^verbatim>\<open>git_push\<close> has one form, which runs \<^verbatim>\<open>git push\<close> and then \<^verbatim>\<open>git push --tags\<close>, and
  \<^verbatim>\<open>do_release\<close> calls it in step 9 as in step 4. What holds: in every release that returns
  normally (dry-run off) the commands executed last are the commit of the next version,
  \<^verbatim>\<open>git push\<close>, and \<^verbatim>\<open>git push --tags\<close>.
\<close>

theorem final_push_pushes_tags:
  assumes "fst (do_release sh tmpl version auditors False w) = None"
  shows "\<exists>next before. next_version version = Inr next
     \<and> executed (snd (do_release sh tmpl version auditors False w)) =
          before @ [commit_command next auditors, [''git'', ''push''],
                    [''git'', ''push'', ''--tags'']]"
  using do_release_bump[OF assms] by metis

theorem final_push_pushes_tags_counterexample:
  "fst (do_release all_succeed no_templates ''0.1.10'' ''alice'' False (tree_at ''0.1.9'' ''0.1.9''))
     = None
   \<and> executed (snd (do_release all_succeed no_templates ''0.1.10'' ''alice'' False
        (tree_at ''0.1.9'' ''0.1.9''))) =
      [[''git'', ''add'', ''./build.gradle.kts''],
       [''git'', ''add'', ''./core/build.gradle.kts''],
       commit_command ''0.1.10'' ''alice'',
       [''git'', ''tag'', ''v0.1.10''],
       [''git'', ''push''],
       [''git'', ''push'', ''--tags''],
       [''./gradlew'', ''publish''],
       [''git'', ''add'', ''./build.gradle.kts''],
       [''git'', ''add'', ''./core/build.gradle.kts''],
       commit_command ''0.1.11-pre1'' ''alice'',
       [''git'', ''push''],
       [''git'', ''push'', ''--tags'']]"
  by code_simp

theorem final_push_pushes_tags_witness:
  "fst (do_release all_succeed no_templates ''0.1.10'' ''alice'' False (tree_at ''0.1.9'' ''0.1.9''))
     = None
   \<and> (\<exists>next before. next_version ''0.1.10'' = Inr next
     \<and> executed (snd (do_release all_succeed no_templates ''0.1.10'' ''alice'' False
          (tree_at ''0.1.9'' ''0.1.9''))) =
          before @ [commit_command next ''alice'', [''git'', ''push''],
                    [''git'', ''push'', ''--tags'']])"
proof -
  have h: "fst (do_release all_succeed no_templates ''0.1.10'' ''alice'' False
      (tree_at ''0.1.9'' ''0.1.9'')) = None" by code_simp
  from final_push_pushes_tags[OF h] h show ?thesis by (intro conjI)
qed




end
